theory Spec2Isabelle
  imports Main "HOL-Library.Word"
begin

section \<open>Background sequencer reactivation: data model\<close>

text \<open>
  A shallow embedding of \<^verbatim>\<open>logdevice/common/SequencerBackgroundActivator.cpp\<close>.
  The activator runs on one worker thread, so every member function is a function from
  the state before the call to the state after it. Assertions (\<^verbatim>\<open>ld_check\<close>) are
  compiled out of release builds and have no counterpart here; \<^verbatim>\<open>ld_catch\<close> yields
  the value of its condition; rate-limited log lines are omitted.
\<close>

type_synonym logid_t = "64 word"
type_synonym epoch_t = "32 word"

text \<open>The error codes of \<^verbatim>\<open>E::\<close> that the file names.\<close>

datatype Status =
    E_OK | E_UPTODATE | E_FAILED | E_NOBUFS | E_TOOMANY | E_NOTCONN | E_ACCESS
  | E_SYSLIMIT | E_INPROGRESS | E_NOSEQUENCER | E_INTERNAL | E_NOTFOUND | E_TOOBIG
  | E_ABORTED | E_SHUTDOWN

text \<open>Modelled from the spec: \<^verbatim>\<open>Sequencer::State\<close> is declared in Sequencer.h. The file
  tells \<^verbatim>\<open>ACTIVE\<close> and \<^verbatim>\<open>ACTIVATING\<close> apart from every other state;
  \<open>INACTIVE\<close> stands for the others.
\<close>

datatype SequencerState = INACTIVE | ACTIVATING | ACTIVE

datatype UpdateResult = UNCHANGED | UPDATED | FAILED

text \<open>Modelled from the spec: \<^verbatim>\<open>EpochMetaData\<close> is declared in EpochMetaData.h. The record
  has the epoch of the header, the three flags the file reads, the nodeset-selector
  parameters, and the storage set and replication attributes as opaque numbers.
\<close>

record EpochMetaData =
  h_epoch :: epoch_t
  isEmpty :: bool
  disabled :: bool
  writtenInMetaDataLog :: bool
  nodeset_params :: nat
  shards :: "nat list"
  replication :: nat

text \<open>
  The part of a sequencer the file reads, and the slot \<^verbatim>\<open>background_activation_token_\<close>
  it writes (members lose their trailing underscore here). A token is valid or not:
  \<open>True\<close> is a token that holds one credit.
\<close>

record Sequencer =
  getState :: SequencerState
  getCurrentMetaData :: "EpochMetaData option"
  getEpochSequencerOptions :: "nat option"
  background_activation_token :: bool

record Settings =
  max_sequencer_background_activations_in_flight :: nat
  sequencer_background_activation_retry_interval :: nat
  epoch_metadata_use_new_storage_set_format :: bool

text \<open>
  Calls that leave the file, in the order they are made. The results of these calls come
  from the environment below; the list records what was asked.
\<close>

datatype Call =
    FindSequencer logid_t
  | NoteConfigurationChanged logid_t bool
  | UpdateMetaDataIfNeeded logid_t EpochMetaData
  | ActivateSequencer logid_t epoch_t "EpochMetaData option"
  | CreateOrUpdateMetaData logid_t epoch_t nat

text \<open>
  What the file takes from its collaborators: the settings, the configuration, the
  constant \<^verbatim>\<open>EPOCH_MAX\<close>, and the answers of the sequencer registry, the epoch store
  and the metadata updater. A synchronous failure of a registry or epoch store call is
  \<open>Some e\<close>: the call returns \<open>-1\<close> with \<^verbatim>\<open>err\<close> set to \<open>e\<close>; \<open>None\<close> is the
  return value \<open>0\<close>. \<open>usec_since k\<close> is what the steady clock reads when the loop of
  \<^verbatim>\<open>maybeProcessQueue\<close> looks at it after \<open>k\<close> iterations. \<open>queue_order\<close> says
  in which order the container \<^verbatim>\<open>queue_\<close> iterates over its ids once a new one has
  been inserted (a hash container may rehash and reorder the ids it already had).

  The environment is that of one call of the activator; the next call may come with
  another one (the settings are reloaded, the registry answers differently). What an
  activation or an epoch store write does to a sequencer later on is seen the next time
  the decision procedure looks at it, in what \<open>noteConfigurationChanged\<close> gives for it.
\<close>

record Env =
  settings :: Settings
  EPOCH_MAX :: epoch_t
  isMetaDataLog :: "logid_t \<Rightarrow> bool"
  isSequencingEnabled :: bool
  sequencersProvisionEpochStore :: bool
  getLogGroupByIDShared :: "logid_t \<Rightarrow> nat option"
  immutableOptions :: "nat \<Rightarrow> nat"
  noteConfigurationChanged ::
    "logid_t \<Rightarrow> bool \<Rightarrow> Sequencer \<Rightarrow> SequencerState \<times> EpochMetaData option \<times> nat option"
  updateMetaDataIfNeeded ::
    "logid_t \<Rightarrow> EpochMetaData \<Rightarrow> bool \<Rightarrow> UpdateResult \<times> EpochMetaData \<times> bool"
  activateSequencer :: "logid_t \<Rightarrow> epoch_t \<Rightarrow> EpochMetaData option \<Rightarrow> Status option"
  createOrUpdateMetaData :: "logid_t \<Rightarrow> epoch_t \<Rightarrow> nat \<Rightarrow> Status option"
  usec_since :: "nat \<Rightarrow> int"
  queue_order :: "logid_t list \<Rightarrow> logid_t list"

text \<open>Modelled from the spec: \<^verbatim>\<open>ResourceBudget\<close> is declared in ResourceBudget.h. It is a
  counted semaphore of capacity \<open>budget_limit\<close> with \<open>budget_used\<close> credits drawn.
  The limit may be set below the number in use; then nothing is available until enough
  tokens are released.
\<close>

record ResourceBudget =
  budget_limit :: nat
  budget_used :: nat

text \<open>Modelled from the spec: the credits that can still be drawn.\<close>

definition available :: "ResourceBudget \<Rightarrow> nat" where
  "available b = budget_limit b - budget_used b"

text \<open>Modelled from the spec: replaces the capacity, leaves the credits in use alone.\<close>

definition setLimit :: "ResourceBudget \<Rightarrow> nat \<Rightarrow> ResourceBudget" where
  "setLimit b l = b\<lparr>budget_limit := l\<rparr>"

text \<open>Modelled from the spec: draws one credit without blocking. The token is valid when a
  credit was free.
\<close>

definition acquireToken :: "ResourceBudget \<Rightarrow> bool \<times> ResourceBudget" where
  "acquireToken b =
     (if budget_used b + 1 \<le> budget_limit b
      then (True, b\<lparr>budget_used := budget_used b + 1\<rparr>)
      else (False, b))"

text \<open>Modelled from the spec: releasing a valid token returns its credit; releasing an
  invalid one does nothing. A token that goes out of scope is released the same way.
\<close>

definition release :: "bool \<Rightarrow> ResourceBudget \<Rightarrow> ResourceBudget" where
  "release token b = (if token then b\<lparr>budget_used := budget_used b - 1\<rparr> else b)"

text \<open>
  The state: the members \<^verbatim>\<open>queue_\<close>, \<^verbatim>\<open>budget_\<close> and \<^verbatim>\<open>retry_timer_\<close> of the
  activator, the sequencers of the registry, the thread-local \<^verbatim>\<open>err\<close>, the four worker
  counters, and the calls made so far. \<open>queue\<close> lists the pending ids in the iteration
  order of the container, \<^verbatim>\<open>begin()\<close> first. \<open>retry_timer\<close> is \<open>Some d\<close> while the
  timer is armed to fire after \<open>d\<close> microseconds.
\<close>

record state =
  queue :: "logid_t list"
  budget :: "ResourceBudget option"
  retry_timer :: "nat option"
  sequencers :: "logid_t \<rightharpoonup> Sequencer"
  err :: Status
  background_sequencer_reactivations_completed :: nat
  background_sequencer_reactivations_scheduled :: nat
  sequencer_reactivations_for_metadata_update :: nat
  metadata_updates_without_sequencer_reactivation :: nat
  calls :: "Call list"

section \<open>The member functions\<close>

definition bumpCompletedStat :: "nat \<Rightarrow> state \<Rightarrow> state" where
  "bumpCompletedStat val s =
     s\<lparr>background_sequencer_reactivations_completed :=
         background_sequencer_reactivations_completed s + val\<rparr>"

definition bumpScheduledStat :: "nat \<Rightarrow> state \<Rightarrow> state" where
  "bumpScheduledStat val s =
     s\<lparr>background_sequencer_reactivations_scheduled :=
         background_sequencer_reactivations_scheduled s + val\<rparr>"

definition call :: "Call \<Rightarrow> state \<Rightarrow> state" where
  "call c s = s\<lparr>calls := calls s @ [c]\<rparr>"

text \<open>Modelled from the spec: the container \<^verbatim>\<open>queue_\<close> is declared in
  SequencerBackgroundActivator.h. It is a set with an iteration order of its own, which
  an insertion may change. \<open>rehash env q\<close> is the ids of \<open>q\<close> in the order the
  container has them: those that \<open>queue_order\<close> names come first, in the order it names
  them, and the others follow as they were. Every order of the ids is the result for
  some \<open>queue_order\<close>, and for every \<open>queue_order\<close> the result has the ids of \<open>q\<close>,
  each once.
\<close>

definition rehash :: "Env \<Rightarrow> logid_t list \<Rightarrow> logid_t list" where
  "rehash env q =
     (let h = remdups (queue_order env q)
      in filter (\<lambda>y. y \<in> set q) h @ filter (\<lambda>y. y \<notin> set h) q)"

text \<open>
  \<^verbatim>\<open>queue_.insert(id)\<close>: the new queue, and whether the id was new. An id that is
  already there changes nothing.
\<close>

definition queue_insert :: "Env \<Rightarrow> logid_t \<Rightarrow> logid_t list \<Rightarrow> logid_t list \<times> bool" where
  "queue_insert env x q =
     (if x \<in> set q then (q, False) else (rehash env (x # q), True))"

definition activateQueueProcessingTimer :: "Env \<Rightarrow> nat option \<Rightarrow> state \<Rightarrow> state" where
  "activateQueueProcessingTimer env timeout s =
     (let t = (case timeout of
                 None \<Rightarrow> sequencer_background_activation_retry_interval (settings env)
               | Some d \<Rightarrow> d)
      in s\<lparr>retry_timer := Some t\<rparr>)"

definition deactivateQueueProcessingTimer :: "state \<Rightarrow> state" where
  "deactivateQueueProcessingTimer s = s\<lparr>retry_timer := None\<rparr>"

text \<open>Setting \<^verbatim>\<open>err\<close> and returning \<open>-1\<close>.\<close>

definition fail :: "Status \<Rightarrow> state \<Rightarrow> int \<times> state" where
  "fail e s = (-1, s\<lparr>err := e\<rparr>)"

text \<open>
  Lines 182 to 314 of \<^verbatim>\<open>reprovisionOrReactivateIfNeeded\<close>, the block
  \<^verbatim>\<open>do { ... } while (false)\<close>. It gets \<open>need_reactivation\<close> as the comparison of the
  options left it, and gives back \<open>Inl e\<close> when the function returns \<open>-1\<close> with error
  \<open>e\<close> from inside the block, and otherwise the three locals \<open>need_reactivation\<close>,
  \<open>need_epoch_metadata_update\<close> and \<open>new_metadata\<close> at the end of the block, with the
  state, which has gained the calls to the metadata updater.
\<close>

definition considerMetaDataUpdate ::
  "Env \<Rightarrow> logid_t \<Rightarrow> EpochMetaData \<Rightarrow> bool \<Rightarrow> state
     \<Rightarrow> (Status + bool \<times> bool \<times> EpochMetaData option) \<times> state" where
  "considerMetaDataUpdate env logid epoch_metadata need_reactivation s =
     (if \<not> sequencersProvisionEpochStore env then (Inr (need_reactivation, False, None), s)
      else if \<not> writtenInMetaDataLog epoch_metadata then (Inl E_INPROGRESS, s)
      else
        let use_new_storage_set_format =
              epoch_metadata_use_new_storage_set_format (settings env);
            new_metadata = epoch_metadata\<lparr>h_epoch := h_epoch epoch_metadata + 1\<rparr>;
            s1 = call (UpdateMetaDataIfNeeded logid new_metadata) s;
            (res, new_metadata, only_nodeset_params_changed) =
              updateMetaDataIfNeeded env logid new_metadata use_new_storage_set_format
        in if res = FAILED then (Inr (need_reactivation, False, None), s1)
           else if res = UNCHANGED then (Inr (need_reactivation, False, None), s1)
           else
             let need_reactivation =
                   (if \<not> only_nodeset_params_changed then True else need_reactivation);
                 another_metadata = new_metadata;
                 s2 = call (UpdateMetaDataIfNeeded logid another_metadata) s1;
                 (another_res, another_metadata, another_only_params) =
                   updateMetaDataIfNeeded env logid another_metadata
                     use_new_storage_set_format
             in if \<not> (another_res \<noteq> FAILED) \<or> \<not> (another_res = UNCHANGED)
                then (Inr (False, False, Some new_metadata), s2)
                else (Inr (need_reactivation, True, Some new_metadata), s2))"

text \<open>
  Lines 316 to 410: the action. The counter of an action is bumped, then the call is
  made. \<open>need_epoch_metadata_update\<close> is only set together with a \<open>new_metadata\<close>
  (line 340 asserts it), so the branch for \<open>None\<close> is never taken; it is the end of the
  function. The callback handed to the epoch store (lines 341 to 378) runs when the write
  has completed, after this function has returned.
\<close>

definition act ::
  "Env \<Rightarrow> logid_t \<Rightarrow> epoch_t \<Rightarrow> bool \<Rightarrow> bool \<Rightarrow> EpochMetaData option \<Rightarrow> state
     \<Rightarrow> int \<times> state" where
  "act env logid current_epoch need_reactivation need_epoch_metadata_update new_metadata s =
     (if need_reactivation then
        let s1 = s\<lparr>sequencer_reactivations_for_metadata_update :=
                     sequencer_reactivations_for_metadata_update s + 1\<rparr>;
            s2 = call (ActivateSequencer logid (current_epoch + 1) new_metadata) s1
        in (case activateSequencer env logid (current_epoch + 1) new_metadata of
              None \<Rightarrow> (0, s2)
            | Some e \<Rightarrow> fail e s2)
      else case (need_epoch_metadata_update, new_metadata) of
        (True, Some md) \<Rightarrow>
          let s1 = s\<lparr>metadata_updates_without_sequencer_reactivation :=
                       metadata_updates_without_sequencer_reactivation s + 1\<rparr>;
              s2 = call (CreateOrUpdateMetaData logid (current_epoch + 1)
                           (nodeset_params md)) s1
          in (case createOrUpdateMetaData env logid (current_epoch + 1)
                     (nodeset_params md) of
                None \<Rightarrow> (0, s2)
              | Some e \<Rightarrow> fail e s2)
      | _ \<Rightarrow> fail E_UPTODATE s)"

definition reprovisionOrReactivateIfNeeded ::
  "Env \<Rightarrow> logid_t \<Rightarrow> Sequencer \<Rightarrow> state \<Rightarrow> int \<times> state" where
  "reprovisionOrReactivateIfNeeded env logid seq s =
     (let st = getState seq;
          not_active = (if st = ACTIVATING then E_INPROGRESS else E_NOSEQUENCER)
      in if st \<noteq> ACTIVE then fail not_active s
         else
          (case getCurrentMetaData seq of
             None \<Rightarrow> fail not_active s
           | Some epoch_metadata \<Rightarrow>
               if isEmpty epoch_metadata \<or> disabled epoch_metadata then fail E_INTERNAL s
               else
                (case getLogGroupByIDShared env logid of
                   None \<Rightarrow> fail E_NOTFOUND s
                 | Some logcfg \<Rightarrow>
                     let current_epoch = h_epoch epoch_metadata
                     in if current_epoch \<ge> EPOCH_MAX env - 2 then fail E_TOOBIG s
                        else
                         (case getEpochSequencerOptions seq of
                            None \<Rightarrow> fail E_NOSEQUENCER s
                          | Some current_options \<Rightarrow>
                              let new_options = immutableOptions env logcfg;
                                  need_reactivation = (new_options \<noteq> current_options);
                                  (r, s1) = considerMetaDataUpdate env logid epoch_metadata
                                              need_reactivation s
                              in (case r of
                                    Inl e \<Rightarrow> fail e s1
                                  | Inr (need_reactivation, need_epoch_metadata_update,
                                         new_metadata) \<Rightarrow>
                                      act env logid current_epoch need_reactivation
                                        need_epoch_metadata_update new_metadata s1)))))"

text \<open>
  The early returns of lines 125 to 166 are not taken: the sequencer is active with
  metadata \<open>md\<close> that is neither empty nor disabled, the log has the configuration
  \<open>logcfg\<close>, the epoch is below \<^verbatim>\<open>EPOCH_MAX - 2\<close>, and the sequencer has the options
  \<open>opts\<close>.
\<close>

definition checksPass ::
  "Env \<Rightarrow> logid_t \<Rightarrow> Sequencer \<Rightarrow> EpochMetaData \<Rightarrow> nat \<Rightarrow> nat \<Rightarrow> bool" where
  "checksPass env logid seq md logcfg opts \<longleftrightarrow>
     getState seq = ACTIVE \<and> getCurrentMetaData seq = Some md \<and> \<not> isEmpty md
     \<and> \<not> disabled md \<and> getLogGroupByIDShared env logid = Some logcfg
     \<and> \<not> EPOCH_MAX env - 2 \<le> h_epoch md \<and> getEpochSequencerOptions seq = Some opts"

text \<open>
  Lines 50 to 79 of \<^verbatim>\<open>processOneLog\<close>: the sequencer is looked up and told of the
  configuration. \<open>Inl\<close> is one of the three early returns (all of them return
  \<open>true\<close>), with the state at the return; \<open>Inr\<close> is the sequencer as it is after
  \<^verbatim>\<open>noteConfigurationChanged\<close>, and the state in which the function goes on.
\<close>

definition findAndNotify :: "Env \<Rightarrow> logid_t \<Rightarrow> state \<Rightarrow> state + Sequencer \<times> state" where
  "findAndNotify env log_id s0 =
     (let s = call (FindSequencer log_id) s0
      in case sequencers s log_id of
        None \<Rightarrow> Inl s
      | Some seq \<Rightarrow>
          if background_activation_token seq then Inl s
          else
            let is_sequencer_node = isSequencingEnabled env;
                (st, md, opts) = noteConfigurationChanged env log_id is_sequencer_node seq;
                seq = seq\<lparr>getState := st, getCurrentMetaData := md,
                          getEpochSequencerOptions := opts\<rparr>;
                s1 = (call (NoteConfigurationChanged log_id is_sequencer_node) s)
                       \<lparr>sequencers := (sequencers s)(log_id \<mapsto> seq)\<rparr>
            in if \<not> is_sequencer_node then Inl s1 else Inr (seq, s1))"

text \<open>
  \<^verbatim>\<open>processOneLog\<close> gets the token by reference. The result is the return value, the
  token as the caller finds it afterwards (invalid once it was moved into the sequencer),
  and the state.
\<close>

definition processOneLog :: "Env \<Rightarrow> logid_t \<Rightarrow> bool \<Rightarrow> state \<Rightarrow> bool \<times> bool \<times> state" where
  "processOneLog env log_id token s =
     (case findAndNotify env log_id s of
        Inl s' \<Rightarrow> (True, token, s')
      | Inr (seq, s1) \<Rightarrow>
          let (rv, s2) = reprovisionOrReactivateIfNeeded env log_id seq s1
          in if rv = -1 then
               if err s2 = E_UPTODATE then (True, token, s2)
               else
                 let should_retry =
                       (err s2 = E_FAILED \<or> err s2 = E_NOBUFS \<or> err s2 = E_TOOMANY
                        \<or> err s2 = E_NOTCONN \<or> err s2 = E_ACCESS)
                 in (\<not> should_retry, token, s2)
             else
               (True, False,
                s2\<lparr>sequencers :=
                     (sequencers s2)
                       (log_id \<mapsto> seq\<lparr>background_activation_token := token\<rparr>)\<rparr>))"

text \<open>The budget of the activator, once it exists.\<close>

definition budget_available :: "state \<Rightarrow> nat" where
  "budget_available s = (case budget s of None \<Rightarrow> 0 | Some b \<Rightarrow> available b)"

text \<open>
  \<^verbatim>\<open>token.release()\<close>, and the destructor of a token: the credit of a valid token goes
  back to the budget it was drawn from.
\<close>

definition releaseToken :: "bool \<Rightarrow> state \<Rightarrow> state" where
  "releaseToken token s = s\<lparr>budget := map_option (release token) (budget s)\<rparr>"

text \<open>
  \<^verbatim>\<open>budget_->acquireToken()\<close>. The loop calls it after \<^verbatim>\<open>maybeProcessQueue\<close> has
  made the budget; with no budget there is no token.
\<close>

definition acquire :: "state \<Rightarrow> bool \<times> state" where
  "acquire s =
     (case budget s of
        None \<Rightarrow> (False, s)
      | Some b \<Rightarrow> let (token, b') = acquireToken b in (token, s\<lparr>budget := Some b'\<rparr>))"

text \<open>
  Lines 473 to 494: the body of the loop of \<^verbatim>\<open>maybeProcessQueue\<close> after the time
  check. The result says whether the loop goes on (\<open>False\<close> is the \<^verbatim>\<open>break\<close>). The
  loop condition has made sure that the queue is not empty. The token goes out of scope
  at the end of the body, which releases it if it is still valid.
\<close>

definition processNext :: "Env \<Rightarrow> state \<Rightarrow> bool \<times> state" where
  "processNext env s =
     (case queue s of
        [] \<Rightarrow> (False, s)
      | log_id # _ \<Rightarrow>
          let (token, s1) = acquire s;
              (done, token, s2) = processOneLog env log_id token s1
          in if done then
               let s3 = s2\<lparr>queue := remove1 log_id (queue s2)\<rparr>
               in if token then (True, bumpCompletedStat 1 (releaseToken token s3))
                  else (True, s3)
             else (False, releaseToken token (activateQueueProcessingTimer env None s2)))"

text \<open>
  The reconciler leaves the queue, the budget, the timer and the sequencers alone, and the
  decision procedure the first three. The loop below terminates because of the first of
  these: an iteration that does not leave the loop erases an id.
\<close>

definition same_engine :: "state \<Rightarrow> state \<Rightarrow> bool" where
  "same_engine s s' \<longleftrightarrow>
     queue s' = queue s \<and> budget s' = budget s \<and> retry_timer s' = retry_timer s
     \<and> sequencers s' = sequencers s"

lemma same_engine_fail: "fail e s = (rv, s') \<Longrightarrow> same_engine s s'"
  by (auto simp: same_engine_def fail_def)

lemma considerMetaDataUpdate_same:
  "considerMetaDataUpdate env l md nr s = (r, s') \<Longrightarrow> same_engine s s'"
  by (auto simp: considerMetaDataUpdate_def Let_def same_engine_def call_def
           split: if_splits prod.splits)

lemma act_same: "act env l e nr nu md s = (rv, s') \<Longrightarrow> same_engine s s'"
  by (auto simp: act_def Let_def same_engine_def call_def fail_def
           split: if_splits option.splits bool.splits)

lemma same_engine_trans: "same_engine s t \<Longrightarrow> same_engine t u \<Longrightarrow> same_engine s u"
  by (simp add: same_engine_def)

lemma reprovision_same:
  "reprovisionOrReactivateIfNeeded env l seq s = (rv, s') \<Longrightarrow> same_engine s s'"
  unfolding reprovisionOrReactivateIfNeeded_def Let_def
  by (auto simp: same_engine_def [of s s] split: if_splits option.splits prod.splits sum.splits
           dest: same_engine_fail considerMetaDataUpdate_same act_same
           intro: same_engine_trans)

lemma processOneLog_queue:
  "processOneLog env l t s = (d, t', s') \<Longrightarrow> queue s' = queue s"
  unfolding processOneLog_def findAndNotify_def Let_def
  by (auto simp: call_def same_engine_def
           split: option.splits if_splits prod.splits sum.splits
           dest!: reprovision_same)

lemma processOneLog_budget:
  "processOneLog env l t s = (d, t', s') \<Longrightarrow> budget s' = budget s"
  unfolding processOneLog_def findAndNotify_def Let_def
  by (auto simp: call_def same_engine_def
           split: option.splits if_splits prod.splits sum.splits
           dest!: reprovision_same)

lemma processOneLog_timer:
  "processOneLog env l t s = (d, t', s') \<Longrightarrow> retry_timer s' = retry_timer s"
  unfolding processOneLog_def findAndNotify_def Let_def
  by (auto simp: call_def same_engine_def
           split: option.splits if_splits prod.splits sum.splits
           dest!: reprovision_same)

lemma processNext_shrinks:
  "processNext env s = (True, s') \<Longrightarrow> length (queue s') < length (queue s)"
  unfolding processNext_def acquire_def Let_def
  by (auto simp: bumpCompletedStat_def releaseToken_def
           split: list.splits option.splits prod.splits if_splits
           dest!: processOneLog_queue)

text \<open>
  The loop of \<^verbatim>\<open>maybeProcessQueue\<close> (lines 464 to 495), entered with
  \<open>made_progress = False\<close> and \<open>k = 0\<close>; \<open>k\<close> counts the iterations done.
\<close>

function processQueue :: "Env \<Rightarrow> bool \<Rightarrow> nat \<Rightarrow> state \<Rightarrow> state" where
  "processQueue env made_progress k s =
     (if queue s \<noteq> [] \<and> budget_available s > 0 then
        if made_progress \<and> usec_since env k > 2000
        then activateQueueProcessingTimer env (Some 5000) s
        else
          let (continue, s') = processNext env s
          in if continue then processQueue env True (k + 1) s' else s'
      else s)"
  by pat_completeness auto
termination
  by (relation "measure (\<lambda>(env, made_progress, k, s). length (queue s))")
     (auto dest: processNext_shrinks [OF sym])

declare processQueue.simps [simp del]

text \<open>
  Lines 451 to 458: the limit is read from the settings; the budget is made on the first
  call and set to the limit when the setting has changed.
\<close>

definition refreshBudget :: "Env \<Rightarrow> state \<Rightarrow> state" where
  "refreshBudget env s =
     (let limit = max_sequencer_background_activations_in_flight (settings env)
      in case budget s of
        None \<Rightarrow> s\<lparr>budget := Some \<lparr>budget_limit = limit, budget_used = 0\<rparr>\<rparr>
      | Some b \<Rightarrow>
          if budget_limit b \<noteq> limit then s\<lparr>budget := Some (setLimit b limit)\<rparr> else s)"

definition maybeProcessQueue :: "Env \<Rightarrow> state \<Rightarrow> state" where
  "maybeProcessQueue env s =
     processQueue env False 0 (refreshBudget env (deactivateQueueProcessingTimer s))"

text \<open>The loop of \<^verbatim>\<open>schedule\<close>: the queue and \<open>num_scheduled\<close> are threaded through.\<close>

fun insertAll ::
  "Env \<Rightarrow> logid_t list \<Rightarrow> logid_t list \<times> nat \<Rightarrow> logid_t list \<times> nat" where
  "insertAll env [] (q, num_scheduled) = (q, num_scheduled)"
| "insertAll env (log_id # log_ids) (q, num_scheduled) =
     (let (q', inserted) = queue_insert env log_id q
      in insertAll env log_ids (q', if inserted then num_scheduled + 1 else num_scheduled))"

definition schedule :: "Env \<Rightarrow> logid_t list \<Rightarrow> state \<Rightarrow> state" where
  "schedule env log_ids s =
     (let (q, num_scheduled) = insertAll env log_ids (queue s, 0)
      in maybeProcessQueue env (bumpScheduledStat num_scheduled (s\<lparr>queue := q\<rparr>)))"

text \<open>
  Lines 427 to 443 of \<^verbatim>\<open>notifyCompletion\<close>, for the sequencer \<open>seq\<close> found for the
  log: the token of the sequencer is released, the id is inserted and the two counters
  are bumped. \<^verbatim>\<open>notifyCompletion\<close> then calls \<^verbatim>\<open>maybeProcessQueue\<close>.
\<close>

definition reclaimAndRequeue :: "Env \<Rightarrow> logid_t \<Rightarrow> Sequencer \<Rightarrow> state \<Rightarrow> state" where
  "reclaimAndRequeue env logid seq s =
     (let had_token = background_activation_token seq;
          s1 = (if had_token
                then (releaseToken True s)
                       \<lparr>sequencers :=
                          (sequencers s)
                            (logid \<mapsto> seq\<lparr>background_activation_token := False\<rparr>)\<rparr>
                else s);
          (q, inserted) = queue_insert env logid (queue s1);
          s2 = s1\<lparr>queue := q\<rparr>;
          s3 = (if had_token \<and> \<not> inserted then bumpCompletedStat 1 s2 else s2)
      in if \<not> had_token \<and> inserted then bumpScheduledStat 1 s3 else s3)"

definition notifyCompletion :: "Env \<Rightarrow> logid_t \<Rightarrow> Status \<Rightarrow> state \<Rightarrow> state" where
  "notifyCompletion env logid st s0 =
     (if isMetaDataLog env logid then s0
      else
        let s = call (FindSequencer logid) s0
        in case sequencers s logid of
          None \<Rightarrow> s
        | Some seq \<Rightarrow> maybeProcessQueue env (reclaimAndRequeue env logid seq s))"

section \<open>A concrete setting\<close>

text \<open>
  A node that sequences, provisions the epoch store and has the logs 0 to 10 in its
  configuration, each with the options 7. The metadata updater finds nothing to change,
  and the registry and the epoch store accept every call. Metadata logs are the ids with
  the top bit set. The pending set iterates in the order of insertion.
\<close>

definition example_env :: Env where
  "example_env =
     \<lparr>settings = \<lparr>max_sequencer_background_activations_in_flight = 2,
                   sequencer_background_activation_retry_interval = 500000,
                   epoch_metadata_use_new_storage_set_format = False\<rparr>,
      EPOCH_MAX = 4294967294,
      isMetaDataLog = (\<lambda>l. 9223372036854775808 \<le> l),
      isSequencingEnabled = True,
      sequencersProvisionEpochStore = True,
      getLogGroupByIDShared = (\<lambda>l. if l \<le> 10 then Some 7 else None),
      immutableOptions = (\<lambda>attrs. attrs),
      noteConfigurationChanged =
        (\<lambda>l is_sequencer_node seq.
           (getState seq, getCurrentMetaData seq, getEpochSequencerOptions seq)),
      updateMetaDataIfNeeded = (\<lambda>l md use_new_format. (UNCHANGED, md, False)),
      activateSequencer = (\<lambda>l e md. None),
      createOrUpdateMetaData = (\<lambda>l e params. None),
      usec_since = (\<lambda>k. 0),
      queue_order = rotate1\<rparr>"

definition example_metadata :: EpochMetaData where
  "example_metadata =
     \<lparr>h_epoch = 5, isEmpty = False, disabled = False, writtenInMetaDataLog = True,
      nodeset_params = 1, shards = [1, 2, 3], replication = 2\<rparr>"

text \<open>A sequencer that is up to date, and one whose options are not those of the config.\<close>

definition current_sequencer :: Sequencer where
  "current_sequencer =
     \<lparr>getState = ACTIVE, getCurrentMetaData = Some example_metadata,
      getEpochSequencerOptions = Some 7, background_activation_token = False\<rparr>"

definition stale_sequencer :: Sequencer where
  "stale_sequencer = current_sequencer\<lparr>getEpochSequencerOptions := Some 8\<rparr>"

text \<open>
  The activator before its first call, on a node with the sequencer of log 1 up to date
  and those of logs 2 and 3 stale; and the same with a budget and log 2 pending.
\<close>

definition initial_state :: state where
  "initial_state =
     \<lparr>queue = [], budget = None, retry_timer = None,
      sequencers = [1 \<mapsto> current_sequencer, 2 \<mapsto> stale_sequencer, 3 \<mapsto> stale_sequencer],
      err = E_OK,
      background_sequencer_reactivations_completed = 0,
      background_sequencer_reactivations_scheduled = 0,
      sequencer_reactivations_for_metadata_update = 0,
      metadata_updates_without_sequencer_reactivation = 0,
      calls = []\<rparr>"

definition pending_state :: "logid_t \<Rightarrow> state" where
  "pending_state l =
     initial_state\<lparr>queue := [l], budget := Some \<lparr>budget_limit = 2, budget_used = 0\<rparr>\<rparr>"

text \<open>The same node with a registry and an epoch store that refuse every call with \<open>e\<close>.\<close>

definition refusing_env :: "Status \<Rightarrow> Env" where
  "refusing_env e =
     example_env\<lparr>activateSequencer := (\<lambda>l ep md. Some e),
                  createOrUpdateMetaData := (\<lambda>l ep params. Some e)\<rparr>"

text \<open>
  Log 2 with an action in flight: its sequencer holds a token and the id is pending again.
\<close>

definition in_flight_state :: state where
  "in_flight_state =
     initial_state
       \<lparr>queue := [2], budget := Some \<lparr>budget_limit = 2, budget_used = 1\<rparr>,
        sequencers :=
          (sequencers initial_state)
            (2 \<mapsto> stale_sequencer\<lparr>background_activation_token := True\<rparr>)\<rparr>"



definition failing_updater_env :: "Status option \<Rightarrow> Env" where
  "failing_updater_env answer =
     example_env\<lparr>updateMetaDataIfNeeded := (\<lambda>l md use_new_format. (FAILED, md, False)),
                  activateSequencer := (\<lambda>l ep md. answer)\<rparr>"


text \<open>
  A node whose metadata updater changes the nodeset parameters from 1 to 2 and nothing
  else, with an epoch store that gives \<open>answer\<close>.
\<close>

definition params_env :: "Status option \<Rightarrow> Env" where
  "params_env answer =
     example_env
       \<lparr>updateMetaDataIfNeeded :=
          (\<lambda>l md use_new_format.
             if nodeset_params md = 1 then (UPDATED, md\<lparr>nodeset_params := 2\<rparr>, True)
             else (UNCHANGED, md, False)),
        createOrUpdateMetaData := (\<lambda>l ep params. answer)\<rparr>"

text \<open>
  The logs whose sequencer holds a token, and the conservation of tokens: the credits
  drawn from the budget are the tokens held by sequencers. Before the budget exists no
  sequencer holds a token.
\<close>

definition attached :: "state \<Rightarrow> logid_t set" where
  "attached s = {l. \<exists>seq. sequencers s l = Some seq \<and> background_activation_token seq}"

definition conserved :: "state \<Rightarrow> bool" where
  "conserved s \<longleftrightarrow>
     (case budget s of
        None \<Rightarrow> attached s = {}
      | Some b \<Rightarrow> budget_used b = card (attached s))"

text \<open>
  \<open>e\<close> is the epoch after the current epoch of the sequencer of log \<open>l\<close>, without
  wrap-around.
\<close>

definition next_epoch :: "state \<Rightarrow> logid_t \<Rightarrow> epoch_t \<Rightarrow> bool" where
  "next_epoch s l e =
     (case sequencers s l of
        None \<Rightarrow> False
      | Some seq \<Rightarrow>
          (case getCurrentMetaData seq of
             None \<Rightarrow> False
           | Some md \<Rightarrow> e = h_epoch md + 1 \<and> unat e = unat (h_epoch md) + 1))"

text \<open>
  The example node with the limit of the in-flight setting lowered to 1, and with a
  clock that reads 3 ms whenever the loop looks at it.
\<close>

definition lowered_env :: Env where
  "lowered_env =
     example_env
       \<lparr>settings :=
          (settings example_env)\<lparr>max_sequencer_background_activations_in_flight := 1\<rparr>\<rparr>"



text \<open>
  The calls that are attempts of an action: an activation asked of the registry, and a
  write of nodeset parameters asked of the epoch store. \<open>counts_attempts s s'\<close> says
  that from \<open>s\<close> to \<open>s'\<close> the calls have only been added to, that
  \<^verbatim>\<open>sequencer_reactivations_for_metadata_update\<close> has gone up by the number of
  activations among the calls added, and \<^verbatim>\<open>metadata_updates_without_sequencer_reactivation\<close>
  by the number of writes among them, whatever the calls returned.
\<close>

definition isActivation :: "Call \<Rightarrow> bool" where
  "isActivation c = (case c of ActivateSequencer l e nm \<Rightarrow> True | _ \<Rightarrow> False)"

definition isWrite :: "Call \<Rightarrow> bool" where
  "isWrite c = (case c of CreateOrUpdateMetaData l e p \<Rightarrow> True | _ \<Rightarrow> False)"

definition counts_attempts :: "state \<Rightarrow> state \<Rightarrow> bool" where
  "counts_attempts s s' \<longleftrightarrow>
     take (length (calls s)) (calls s') = calls s \<and>
     sequencer_reactivations_for_metadata_update s' =
       sequencer_reactivations_for_metadata_update s
         + length (filter isActivation (drop (length (calls s)) (calls s'))) \<and>
     metadata_updates_without_sequencer_reactivation s' =
       metadata_updates_without_sequencer_reactivation s
         + length (filter isWrite (drop (length (calls s)) (calls s')))"

section \<open>How one iteration of the loop follows from the decision\<close>

lemmas concrete_defs = example_env_def example_metadata_def current_sequencer_def
  stale_sequencer_def initial_state_def pending_state_def

lemmas engine_defs = schedule_def queue_insert_def rehash_def Let_def maybeProcessQueue_def
  refreshBudget_def bumpScheduledStat_def deactivateQueueProcessingTimer_def
  budget_available_def available_def processNext_def acquire_def acquireToken_def
  processOneLog_def findAndNotify_def call_def reprovisionOrReactivateIfNeeded_def
  considerMetaDataUpdate_def act_def fail_def releaseToken_def release_def
  bumpCompletedStat_def setLimit_def activateQueueProcessingTimer_def notifyCompletion_def
  reclaimAndRequeue_def

lemma set_rehash: "set (rehash env q) = set q"
  by (auto simp: rehash_def Let_def)

lemma distinct_rehash: "distinct q \<Longrightarrow> distinct (rehash env q)"
  by (auto simp: rehash_def Let_def)

lemma rehash_any_order:
  "queue_order env q = p \<Longrightarrow> distinct p \<Longrightarrow> set p = set q \<Longrightarrow> rehash env q = p"
  by (simp add: rehash_def Let_def)

lemma processOneLog_via:
  assumes "findAndNotify env l s = Inr (seq, s1)"
      and "reprovisionOrReactivateIfNeeded env l seq s1 = (rv, s2)"
  shows "processOneLog env l tok s =
           (if rv = -1 then
              (err s2 \<notin> {E_FAILED, E_NOBUFS, E_TOOMANY, E_NOTCONN, E_ACCESS}, tok, s2)
            else (True, False,
                  s2\<lparr>sequencers :=
                       (sequencers s2)(l \<mapsto> seq\<lparr>background_activation_token := tok\<rparr>)\<rparr>))"
  using assms by (auto simp: processOneLog_def)

lemma processNext_via:
  assumes "queue s = l # q" and "acquire s = (tok, s1)"
      and "processOneLog env l tok s1 = (d, tok', s2)"
  shows "processNext env s =
           (if d then
              (True, if tok' then bumpCompletedStat 1 (releaseToken tok' (s2\<lparr>queue := q\<rparr>))
                     else s2\<lparr>queue := q\<rparr>)
            else (False, releaseToken tok' (activateQueueProcessingTimer env None s2)))"
proof -
  have "queue s1 = queue s"
    using assms(2) by (auto simp: acquire_def Let_def split: option.splits prod.splits)
  with processOneLog_queue [OF assms(3)] assms(1) have "queue s2 = l # q" by simp
  with assms show ?thesis by (simp add: processNext_def)
qed

lemma acquire_release:
  assumes "acquire s = (True, s1)" and "budget s2 = budget s1"
  shows "budget (releaseToken True s2) = budget s"
  using assms
  by (auto simp: acquire_def acquireToken_def releaseToken_def release_def
           Let_def split: option.splits if_splits)

lemma acquire_frame:
  "acquire s = (tok, s1) \<Longrightarrow> queue s1 = queue s \<and> retry_timer s1 = retry_timer s"
  by (auto simp: acquire_def Let_def split: option.splits prod.splits)

lemma acquire_valid: "acquire s = (True, s1) \<Longrightarrow> 0 < budget_available s"
  by (auto simp: acquire_def acquireToken_def budget_available_def available_def Let_def
           split: option.splits if_splits)

text \<open>The three ways through the loop.\<close>

lemma processQueue_stop:
  "\<not> (queue s \<noteq> [] \<and> budget_available s > 0) \<Longrightarrow> processQueue env mp k s = s"
  by (subst processQueue.simps) auto

lemma processQueue_yield:
  "queue s \<noteq> [] \<and> budget_available s > 0 \<Longrightarrow> mp \<and> usec_since env k > 2000 \<Longrightarrow>
   processQueue env mp k s = activateQueueProcessingTimer env (Some 5000) s"
  by (subst processQueue.simps) auto

lemma processQueue_step:
  "queue s \<noteq> [] \<and> budget_available s > 0 \<Longrightarrow> \<not> (mp \<and> usec_since env k > 2000) \<Longrightarrow>
   processNext env s = (c, s') \<Longrightarrow>
   processQueue env mp k s = (if c then processQueue env True (k + 1) s' else s')"
  by (subst processQueue.simps) auto


section \<open>Errors of the reconciler that are retried\<close>

text \<open>
  Claim C1, amended. When the inner reconciler returns \<open>-1\<close> with one of the errors
  \<open>FAILED\<close>, \<open>NOBUFS\<close>, \<open>TOOMANY\<close>, \<open>NOTCONN\<close> or \<open>ACCESS\<close>, the decision procedure
  returns \<open>false\<close> (defer) and leaves the token with the caller; the iteration of the drain
  loop then leaves the loop with the id still first in the pending set, the retry timer
  armed with the retry interval of the settings, and the credit back in the budget; the
  loop ends there (it comes to this iteration unless it is one after the first and the
  time slice is used up). \<open>SYSLIMIT\<close> is not among these errors.
\<close>

theorem transient_error_defers:
  assumes "queue s = log_id # q"
      and "acquire s = (True, s1)"
      and "findAndNotify env log_id s1 = Inr (seq, s2)"
      and "reprovisionOrReactivateIfNeeded env log_id seq s2 = (-1, s3)"
      and "err s3 \<in> {E_FAILED, E_NOBUFS, E_TOOMANY, E_NOTCONN, E_ACCESS}"
  shows "processOneLog env log_id True s1 = (False, True, s3) \<and>
         processNext env s =
           (False, releaseToken True (activateQueueProcessingTimer env None s3)) \<and>
         queue (snd (processNext env s)) = log_id # q \<and>
         retry_timer (snd (processNext env s)) =
           Some (sequencer_background_activation_retry_interval (settings env)) \<and>
         budget (snd (processNext env s)) = budget s \<and>
         (\<not> (made_progress \<and> 2000 < usec_since env k) \<longrightarrow>
            processQueue env made_progress k s = snd (processNext env s))"
proof -
  have pol: "processOneLog env log_id True s1 = (False, True, s3)"
    using processOneLog_via [OF assms(3,4), of True] assms(5) by simp
  have pn: "processNext env s =
              (False, releaseToken True (activateQueueProcessingTimer env None s3))"
    using processNext_via [OF assms(1,2) pol] by simp
  have q: "queue s3 = log_id # q"
    using processOneLog_queue [OF pol] acquire_frame [OF assms(2)] assms(1) by simp
  have b: "budget (activateQueueProcessingTimer env None s3) = budget s1"
    using processOneLog_budget [OF pol] by (simp add: activateQueueProcessingTimer_def)
  have go: "queue s \<noteq> [] \<and> 0 < budget_available s"
    using assms(1) acquire_valid [OF assms(2)] by simp
  have loop: "processQueue env made_progress k s = snd (processNext env s)"
    if "\<not> (made_progress \<and> 2000 < usec_since env k)"
    using processQueue_step [OF go that pn] by (simp add: pn)
  show ?thesis
    using pol pn q acquire_release [OF assms(2) b] loop
    by (simp add: releaseToken_def activateQueueProcessingTimer_def)
qed

text \<open>
  The theorem at work: log 2 is pending, its sequencer is stale, and the registry refuses
  the activation with \<open>NOBUFS\<close>.
\<close>

theorem transient_error_defers_witness:
  "findAndNotify (refusing_env E_NOBUFS) 2 (snd (acquire (pending_state 2))) =
     Inr (stale_sequencer,
          snd (projr (findAndNotify (refusing_env E_NOBUFS) 2 (snd (acquire (pending_state 2)))))) \<and>
   fst (reprovisionOrReactivateIfNeeded (refusing_env E_NOBUFS) 2 stale_sequencer
          (snd (projr (findAndNotify (refusing_env E_NOBUFS) 2
                         (snd (acquire (pending_state 2))))))) = -1 \<and>
   \<not> fst (processNext (refusing_env E_NOBUFS) (pending_state 2)) \<and>
   queue (snd (processNext (refusing_env E_NOBUFS) (pending_state 2))) = [2] \<and>
   retry_timer (snd (processNext (refusing_env E_NOBUFS) (pending_state 2))) = Some 500000 \<and>
   budget (snd (processNext (refusing_env E_NOBUFS) (pending_state 2))) =
     Some \<lparr>budget_limit = 2, budget_used = 0\<rparr>"
proof -
  define s1 where "s1 = snd (acquire (pending_state 2))"
  define s2 where "s2 = snd (projr (findAndNotify (refusing_env E_NOBUFS) 2 s1))"
  define s3 where
    "s3 = snd (reprovisionOrReactivateIfNeeded (refusing_env E_NOBUFS) 2 stale_sequencer s2)"
  have a: "queue (pending_state 2) = 2 # []"
    by (simp add: concrete_defs)
  have b: "acquire (pending_state 2) = (True, s1)"
    by (simp add: s1_def concrete_defs engine_defs)
  have c: "findAndNotify (refusing_env E_NOBUFS) 2 s1 = Inr (stale_sequencer, s2)"
    by (simp add: s1_def s2_def refusing_env_def concrete_defs engine_defs)
  have d: "reprovisionOrReactivateIfNeeded (refusing_env E_NOBUFS) 2 stale_sequencer s2
             = (-1, s3)"
    by (simp add: s1_def s2_def s3_def refusing_env_def concrete_defs engine_defs)
  have e: "err s3 \<in> {E_FAILED, E_NOBUFS, E_TOOMANY, E_NOTCONN, E_ACCESS}"
    by (simp add: s1_def s2_def s3_def refusing_env_def concrete_defs engine_defs)
  have f: "budget (pending_state 2) = Some \<lparr>budget_limit = 2, budget_used = 0\<rparr>"
    by (simp add: concrete_defs)
  have g: "sequencer_background_activation_retry_interval (settings (refusing_env E_NOBUFS))
             = 500000"
    by (simp add: refusing_env_def example_env_def)
  show ?thesis
    using transient_error_defers [OF a b c d e, where made_progress = False and k = 0]
      c d f g
    by (auto simp: s1_def s2_def)
qed

text \<open>
  Claim C1 as it is written also names \<open>SYSLIMIT\<close>. With a registry that refuses the
  activation of log 2 with \<open>SYSLIMIT\<close> the reconciler returns \<open>-1\<close> with that error, the
  decision procedure returns \<open>true\<close>, the id is erased and no timer is armed.
\<close>

theorem syslimit_is_not_retried:
  "findAndNotify (refusing_env E_SYSLIMIT) 2 (snd (acquire (pending_state 2))) =
     Inr (stale_sequencer,
          snd (projr (findAndNotify (refusing_env E_SYSLIMIT) 2
                        (snd (acquire (pending_state 2)))))) \<and>
   fst (reprovisionOrReactivateIfNeeded (refusing_env E_SYSLIMIT) 2 stale_sequencer
          (snd (projr (findAndNotify (refusing_env E_SYSLIMIT) 2
                         (snd (acquire (pending_state 2))))))) = -1 \<and>
   err (snd (reprovisionOrReactivateIfNeeded (refusing_env E_SYSLIMIT) 2 stale_sequencer
          (snd (projr (findAndNotify (refusing_env E_SYSLIMIT) 2
                         (snd (acquire (pending_state 2)))))))) = E_SYSLIMIT \<and>
   fst (processOneLog (refusing_env E_SYSLIMIT) 2 True (snd (acquire (pending_state 2)))) \<and>
   fst (processNext (refusing_env E_SYSLIMIT) (pending_state 2)) \<and>
   queue (snd (processNext (refusing_env E_SYSLIMIT) (pending_state 2))) = [] \<and>
   retry_timer (snd (processNext (refusing_env E_SYSLIMIT) (pending_state 2))) = None \<and>
   queue (maybeProcessQueue (refusing_env E_SYSLIMIT) (pending_state 2)) = [] \<and>
   retry_timer (maybeProcessQueue (refusing_env E_SYSLIMIT) (pending_state 2)) = None"
  by (simp add: refusing_env_def concrete_defs engine_defs processQueue.simps)

section \<open>The counters of the completion intake\<close>

text \<open>
  Claim C3, amended. For a log that is not a metadata log and has a sequencer,
  \<^verbatim>\<open>notifyCompletion\<close> is the drain loop run on the state that the intake leaves, and
  in that state, where the drain loop starts, the completed counter has gone up by one
  exactly when the sequencer held a token (which was released) and the id was already
  pending, the scheduled counter has gone up by one exactly when the sequencer held no
  token and the id was not pending yet, and neither has changed in the other two cases.
  The id is pending in that state. The drain loop that follows counts on its own.
\<close>

theorem notifyCompletion_accounting:
  assumes "\<not> isMetaDataLog env logid" and "sequencers s logid = Some seq"
  shows "notifyCompletion env logid st s =
           maybeProcessQueue env
             (reclaimAndRequeue env logid seq (call (FindSequencer logid) s)) \<and>
         background_sequencer_reactivations_completed
             (reclaimAndRequeue env logid seq (call (FindSequencer logid) s)) =
           background_sequencer_reactivations_completed s +
             (if background_activation_token seq \<and> logid \<in> set (queue s) then 1 else 0) \<and>
         background_sequencer_reactivations_scheduled
             (reclaimAndRequeue env logid seq (call (FindSequencer logid) s)) =
           background_sequencer_reactivations_scheduled s +
             (if \<not> background_activation_token seq \<and> logid \<notin> set (queue s) then 1 else 0) \<and>
         logid \<in> set (queue (reclaimAndRequeue env logid seq (call (FindSequencer logid) s)))"
proof -
  have "notifyCompletion env logid st s =
          maybeProcessQueue env
            (reclaimAndRequeue env logid seq (call (FindSequencer logid) s))"
    using assms by (simp add: notifyCompletion_def call_def)
  moreover have "background_sequencer_reactivations_completed
             (reclaimAndRequeue env logid seq (call (FindSequencer logid) s)) =
           background_sequencer_reactivations_completed s +
             (if background_activation_token seq \<and> logid \<in> set (queue s) then 1 else 0)"
    by (simp add: reclaimAndRequeue_def call_def queue_insert_def set_rehash releaseToken_def
          bumpCompletedStat_def bumpScheduledStat_def Let_def)
  moreover have "background_sequencer_reactivations_scheduled
             (reclaimAndRequeue env logid seq (call (FindSequencer logid) s)) =
           background_sequencer_reactivations_scheduled s +
             (if \<not> background_activation_token seq \<and> logid \<notin> set (queue s) then 1 else 0)"
    by (simp add: reclaimAndRequeue_def call_def queue_insert_def set_rehash releaseToken_def
          bumpCompletedStat_def bumpScheduledStat_def Let_def)
  moreover have
    "logid \<in> set (queue (reclaimAndRequeue env logid seq (call (FindSequencer logid) s)))"
    by (simp add: reclaimAndRequeue_def call_def queue_insert_def set_rehash releaseToken_def
          bumpCompletedStat_def bumpScheduledStat_def Let_def)
  ultimately show ?thesis by simp
qed

text \<open>
  The theorem at work: the action for log 2 completes while the id is pending again.
\<close>

theorem notifyCompletion_accounting_witness:
  "\<not> isMetaDataLog example_env 2 \<and>
   sequencers in_flight_state 2 =
     Some (stale_sequencer\<lparr>background_activation_token := True\<rparr>) \<and>
   background_sequencer_reactivations_completed
     (reclaimAndRequeue example_env 2 (stale_sequencer\<lparr>background_activation_token := True\<rparr>)
        (call (FindSequencer 2) in_flight_state)) = 1 \<and>
   background_sequencer_reactivations_scheduled
     (reclaimAndRequeue example_env 2 (stale_sequencer\<lparr>background_activation_token := True\<rparr>)
        (call (FindSequencer 2) in_flight_state)) = 0"
proof -
  have a: "\<not> isMetaDataLog example_env 2"
    by (simp add: example_env_def)
  have b: "sequencers in_flight_state 2 =
             Some (stale_sequencer\<lparr>background_activation_token := True\<rparr>)"
    by (simp add: in_flight_state_def)
  have c: "queue in_flight_state = [2]"
       "background_sequencer_reactivations_completed in_flight_state = 0"
       "background_sequencer_reactivations_scheduled in_flight_state = 0"
    by (simp_all add: in_flight_state_def initial_state_def)
  show ?thesis
    using notifyCompletion_accounting [OF a b, of E_OK] a b c by simp
qed

text \<open>
  Claim C3 as it is written speaks of the whole call. On the first notification for
  log 1, whose sequencer holds no token and whose id is new, the call bumps the scheduled
  counter and then, in the drain loop it runs, finds nothing to do for the log and bumps
  the completed counter as well.
\<close>

theorem notifyCompletion_drain_counts_too:
  "\<not> isMetaDataLog example_env 1 \<and>
   sequencers initial_state 1 = Some current_sequencer \<and>
   \<not> background_activation_token current_sequencer \<and>
   1 \<notin> set (queue initial_state) \<and>
   background_sequencer_reactivations_completed initial_state = 0 \<and>
   background_sequencer_reactivations_completed
     (notifyCompletion example_env 1 E_OK initial_state) = 1 \<and>
   background_sequencer_reactivations_scheduled
     (notifyCompletion example_env 1 E_OK initial_state) = 1"
  by (simp add: concrete_defs engine_defs processQueue.simps word_le_nat_alt)


section \<open>The status of a completion\<close>

text \<open>
  Claim C9. \<^verbatim>\<open>notifyCompletion\<close> ignores its status argument: for any two statuses the
  state after the call, counters and calls included, is the same.
\<close>

theorem notifyCompletion_ignores_status:
  "notifyCompletion env logid st1 s = notifyCompletion env logid st2 s"
  by (simp add: notifyCompletion_def)

section \<open>The reconciler under its checks\<close>

lemma word_succ_no_wrap: "(a :: epoch_t) < b \<Longrightarrow> unat (a + 1) = unat a + 1"
  by unat_arith

lemma reprovision_checked:
  assumes "checksPass env l seq md logcfg opts"
  shows "reprovisionOrReactivateIfNeeded env l seq s =
           (case considerMetaDataUpdate env l md (immutableOptions env logcfg \<noteq> opts) s of
              (r, s1) \<Rightarrow>
                (case r of
                   Inl e \<Rightarrow> fail e s1
                 | Inr (nr, nu, nm) \<Rightarrow> act env l (h_epoch md) nr nu nm s1))"
  using assms by (simp add: reprovisionOrReactivateIfNeeded_def checksPass_def)


lemma processNext_done_kept:
  assumes "queue s = l # q" and "acquire s = (True, s1)"
      and "processOneLog env l True s1 = (True, True, s2)"
  shows "processNext env s = (True, bumpCompletedStat 1 (releaseToken True (s2\<lparr>queue := q\<rparr>)))"
    and "queue (snd (processNext env s)) = q"
    and "retry_timer (snd (processNext env s)) = retry_timer s"
    and "budget (snd (processNext env s)) = budget s"
    and "calls (snd (processNext env s)) = calls s2"
proof -
  show pn: "processNext env s =
              (True, bumpCompletedStat 1 (releaseToken True (s2\<lparr>queue := q\<rparr>)))"
    using processNext_via [OF assms] by simp
  show "queue (snd (processNext env s)) = q"
    by (simp add: pn bumpCompletedStat_def releaseToken_def)
  show "retry_timer (snd (processNext env s)) = retry_timer s"
    using processOneLog_timer [OF assms(3)] acquire_frame [OF assms(2)]
    by (simp add: pn bumpCompletedStat_def releaseToken_def)
  have "budget (s2\<lparr>queue := q\<rparr>) = budget s1"
    using processOneLog_budget [OF assms(3)] by simp
  from acquire_release [OF assms(2) this]
  show "budget (snd (processNext env s)) = budget s"
    by (simp add: pn bumpCompletedStat_def releaseToken_def)
  show "calls (snd (processNext env s)) = calls s2"
    by (simp add: pn bumpCompletedStat_def releaseToken_def)
qed

lemma processNext_terminal:
  assumes "queue s = l # q" and "acquire s = (True, s1)"
      and "findAndNotify env l s1 = Inr (seq, s2)"
      and "reprovisionOrReactivateIfNeeded env l seq s2 = (-1, s3)"
      and "err s3 \<notin> {E_FAILED, E_NOBUFS, E_TOOMANY, E_NOTCONN, E_ACCESS}"
  shows "fst (processOneLog env l True s1) \<and>
         fst (processNext env s) \<and>
         queue (snd (processNext env s)) = q \<and>
         retry_timer (snd (processNext env s)) = retry_timer s \<and>
         budget (snd (processNext env s)) = budget s \<and>
         calls (snd (processNext env s)) = calls s3"
proof -
  have pol: "processOneLog env l True s1 = (True, True, s3)"
    using processOneLog_via [OF assms(3,4), of True] assms(5) by simp
  note pn = processNext_done_kept [OF assms(1,2) pol]
  show ?thesis using pn by (simp add: pol)
qed

section \<open>Epoch exhaustion\<close>







section \<open>A metadata updater that fails\<close>

text \<open>
  Claim C2, amended. When the metadata updater returns \<open>FAILED\<close> on the first pass, the
  reconciler writes nothing to the epoch store and proposes no new metadata. If the
  options of the sequencer are those of the configuration it makes no call at all after
  the updater's and returns \<open>-1\<close> with \<open>UPTODATE\<close>; the decision procedure returns
  \<open>true\<close>, the id is erased and the retry timer is left as it was. If the options have
  changed, the sequencer is still reactivated for them, with no proposed metadata, and
  the pass ends as that activation does.
\<close>

theorem failed_reconcile_writes_no_metadata:
  assumes "checksPass env log_id seq md logcfg opts"
      and "sequencersProvisionEpochStore env" and "writtenInMetaDataLog md"
      and "updateMetaDataIfNeeded env log_id (md\<lparr>h_epoch := h_epoch md + 1\<rparr>)
             (epoch_metadata_use_new_storage_set_format (settings env)) =
           (FAILED, md', only_params)"
  shows "(immutableOptions env logcfg = opts \<longrightarrow>
            reprovisionOrReactivateIfNeeded env log_id seq t =
              (-1, (call (UpdateMetaDataIfNeeded log_id (md\<lparr>h_epoch := h_epoch md + 1\<rparr>)) t)
                     \<lparr>err := E_UPTODATE\<rparr>)) \<and>
         (immutableOptions env logcfg \<noteq> opts \<longrightarrow>
            calls (snd (reprovisionOrReactivateIfNeeded env log_id seq t)) =
              calls t @ [UpdateMetaDataIfNeeded log_id (md\<lparr>h_epoch := h_epoch md + 1\<rparr>),
                         ActivateSequencer log_id (h_epoch md + 1) None] \<and>
            metadata_updates_without_sequencer_reactivation
                (snd (reprovisionOrReactivateIfNeeded env log_id seq t)) =
              metadata_updates_without_sequencer_reactivation t) \<and>
         (immutableOptions env logcfg = opts \<and> queue s = log_id # q
            \<and> acquire s = (True, s1) \<and> findAndNotify env log_id s1 = Inr (seq, s2) \<longrightarrow>
          fst (processOneLog env log_id True s1) \<and>
          fst (processNext env s) \<and>
          queue (snd (processNext env s)) = q \<and>
          retry_timer (snd (processNext env s)) = retry_timer s \<and>
          budget (snd (processNext env s)) = budget s \<and>
          calls (snd (processNext env s)) =
            calls s2 @ [UpdateMetaDataIfNeeded log_id (md\<lparr>h_epoch := h_epoch md + 1\<rparr>)])"
proof -
  have c: "considerMetaDataUpdate env log_id md nr u =
             (Inr (nr, False, None),
              call (UpdateMetaDataIfNeeded log_id (md\<lparr>h_epoch := h_epoch md + 1\<rparr>)) u)"
    for nr u
    using assms(2-4) by (simp add: considerMetaDataUpdate_def Let_def)
  have same: "reprovisionOrReactivateIfNeeded env log_id seq u =
                (-1, (call (UpdateMetaDataIfNeeded log_id (md\<lparr>h_epoch := h_epoch md + 1\<rparr>)) u)
                       \<lparr>err := E_UPTODATE\<rparr>)"
    if "immutableOptions env logcfg = opts" for u
    using that by (simp add: reprovision_checked [OF assms(1)] c act_def fail_def)
  have changed: "calls (snd (reprovisionOrReactivateIfNeeded env log_id seq t)) =
              calls t @ [UpdateMetaDataIfNeeded log_id (md\<lparr>h_epoch := h_epoch md + 1\<rparr>),
                         ActivateSequencer log_id (h_epoch md + 1) None] \<and>
            metadata_updates_without_sequencer_reactivation
                (snd (reprovisionOrReactivateIfNeeded env log_id seq t)) =
              metadata_updates_without_sequencer_reactivation t"
    if "immutableOptions env logcfg \<noteq> opts"
    using that
    by (simp add: reprovision_checked [OF assms(1)] c act_def fail_def call_def Let_def
             split: option.splits)
  have drain: "fst (processOneLog env log_id True s1) \<and>
          fst (processNext env s) \<and>
          queue (snd (processNext env s)) = q \<and>
          retry_timer (snd (processNext env s)) = retry_timer s \<and>
          budget (snd (processNext env s)) = budget s \<and>
          calls (snd (processNext env s)) =
            calls s2 @ [UpdateMetaDataIfNeeded log_id (md\<lparr>h_epoch := h_epoch md + 1\<rparr>)]"
    if "immutableOptions env logcfg = opts \<and> queue s = log_id # q
            \<and> acquire s = (True, s1) \<and> findAndNotify env log_id s1 = Inr (seq, s2)"
    using processNext_terminal [OF _ _ _ same, of s q s1 s2] that
    by (simp add: call_def)
  show ?thesis using same changed drain by blast
qed

text \<open>The theorem at work: log 1 is up to date and the updater fails.\<close>

theorem failed_reconcile_writes_no_metadata_witness:
  "checksPass (failing_updater_env None) 1 current_sequencer example_metadata 7 7 \<and>
   fst (updateMetaDataIfNeeded (failing_updater_env None) 1 (example_metadata\<lparr>h_epoch := 6\<rparr>)
          False) = FAILED \<and>
   fst (reprovisionOrReactivateIfNeeded (failing_updater_env None) 1 current_sequencer
          initial_state) = -1 \<and>
   err (snd (reprovisionOrReactivateIfNeeded (failing_updater_env None) 1 current_sequencer
          initial_state)) = E_UPTODATE \<and>
   fst (processNext (failing_updater_env None) (pending_state 1)) \<and>
   queue (snd (processNext (failing_updater_env None) (pending_state 1))) = [] \<and>
   retry_timer (snd (processNext (failing_updater_env None) (pending_state 1))) = None \<and>
   calls (snd (processNext (failing_updater_env None) (pending_state 1))) =
     [FindSequencer 1, NoteConfigurationChanged 1 True,
      UpdateMetaDataIfNeeded 1 (example_metadata\<lparr>h_epoch := 6\<rparr>)]"
proof -
  define s1 where "s1 = snd (acquire (pending_state 1))"
  define s2 where "s2 = snd (projr (findAndNotify (failing_updater_env None) 1 s1))"
  have a: "checksPass (failing_updater_env None) 1 current_sequencer example_metadata 7 7"
    by (simp add: failing_updater_env_def checksPass_def word_le_nat_alt concrete_defs)
  have b: "sequencersProvisionEpochStore (failing_updater_env None)"
      "writtenInMetaDataLog example_metadata"
    by (simp_all add: failing_updater_env_def checksPass_def word_le_nat_alt concrete_defs)
  have c: "updateMetaDataIfNeeded (failing_updater_env None) 1
             (example_metadata\<lparr>h_epoch := h_epoch example_metadata + 1\<rparr>)
             (epoch_metadata_use_new_storage_set_format (settings (failing_updater_env None))) =
           (FAILED, example_metadata\<lparr>h_epoch := h_epoch example_metadata + 1\<rparr>, False)"
    by (simp add: failing_updater_env_def checksPass_def word_le_nat_alt concrete_defs)
  have d: "immutableOptions (failing_updater_env None) 7 = 7"
      "queue (pending_state 1) = 1 # []"
      "acquire (pending_state 1) = (True, s1)"
      "findAndNotify (failing_updater_env None) 1 s1 = Inr (current_sequencer, s2)"
    by (simp_all add: s1_def s2_def failing_updater_env_def checksPass_def word_le_nat_alt concrete_defs engine_defs)
  have e: "retry_timer (pending_state 1) = None"
      "calls s2 = [FindSequencer 1, NoteConfigurationChanged 1 True]"
      "h_epoch example_metadata + 1 = 6"
    by (simp_all add: s1_def s2_def failing_updater_env_def checksPass_def word_le_nat_alt concrete_defs engine_defs)
  have f: "fst (updateMetaDataIfNeeded (failing_updater_env None) 1
                 (example_metadata\<lparr>h_epoch := 6\<rparr>) False) = FAILED"
    by (simp add: failing_updater_env_def checksPass_def word_le_nat_alt concrete_defs)
  note t = failed_reconcile_writes_no_metadata [OF a b c,
      of initial_state "pending_state 1" "[]" s1 s2]
  show ?thesis
    using t [THEN conjunct1] t [THEN conjunct2, THEN conjunct2] a d e f
    by (simp add: call_def)
qed

text \<open>
  Claim C2 as it is written has no action and no retry whenever the updater fails. For
  log 2, whose options have changed, the updater fails and the registry is asked to
  reactivate; when it accepts, the token is moved into the sequencer, and when it refuses
  with \<open>FAILED\<close>, the id stays pending and the retry timer is armed.
\<close>

theorem failed_reconcile_still_reactivates:
  "fst (updateMetaDataIfNeeded (failing_updater_env None) 2 (example_metadata\<lparr>h_epoch := 6\<rparr>)
          False) = FAILED \<and>
   calls (snd (processNext (failing_updater_env None) (pending_state 2))) =
     [FindSequencer 2, NoteConfigurationChanged 2 True,
      UpdateMetaDataIfNeeded 2 (example_metadata\<lparr>h_epoch := 6\<rparr>),
      ActivateSequencer 2 6 None] \<and>
   sequencer_reactivations_for_metadata_update
     (snd (processNext (failing_updater_env None) (pending_state 2))) = 1 \<and>
   map_option background_activation_token
     (sequencers (snd (processNext (failing_updater_env None) (pending_state 2))) 2) =
     Some True \<and>
   \<not> fst (processNext (failing_updater_env (Some E_FAILED)) (pending_state 2)) \<and>
   queue (snd (processNext (failing_updater_env (Some E_FAILED)) (pending_state 2))) = [2] \<and>
   retry_timer (snd (processNext (failing_updater_env (Some E_FAILED)) (pending_state 2))) =
     Some 500000"
  by (simp add: failing_updater_env_def checksPass_def word_le_nat_alt concrete_defs engine_defs)

section \<open>The stability check\<close>




section \<open>The action counters\<close>

lemma considerMetaDataUpdate_counters:
  assumes "considerMetaDataUpdate env l md nr s = (r, s')"
  shows "sequencer_reactivations_for_metadata_update s' =
           sequencer_reactivations_for_metadata_update s"
    and "metadata_updates_without_sequencer_reactivation s' =
           metadata_updates_without_sequencer_reactivation s"
  using assms
  by (auto simp: considerMetaDataUpdate_def Let_def call_def split: if_splits prod.splits)

text \<open>
  \<open>counts_attempts\<close> in terms of the calls added, and its composition along a run.
\<close>

lemma counts_attempts_iff:
  "counts_attempts s s' \<longleftrightarrow>
     (\<exists>cs. calls s' = calls s @ cs \<and>
        sequencer_reactivations_for_metadata_update s' =
          sequencer_reactivations_for_metadata_update s + length (filter isActivation cs) \<and>
        metadata_updates_without_sequencer_reactivation s' =
          metadata_updates_without_sequencer_reactivation s + length (filter isWrite cs))"
proof
  assume a: "counts_attempts s s'"
  then have "calls s' = calls s @ drop (length (calls s)) (calls s')"
    by (metis append_take_drop_id counts_attempts_def)
  with a show "\<exists>cs. calls s' = calls s @ cs \<and>
        sequencer_reactivations_for_metadata_update s' =
          sequencer_reactivations_for_metadata_update s + length (filter isActivation cs) \<and>
        metadata_updates_without_sequencer_reactivation s' =
          metadata_updates_without_sequencer_reactivation s + length (filter isWrite cs)"
    unfolding counts_attempts_def by blast
next
  assume "\<exists>cs. calls s' = calls s @ cs \<and>
        sequencer_reactivations_for_metadata_update s' =
          sequencer_reactivations_for_metadata_update s + length (filter isActivation cs) \<and>
        metadata_updates_without_sequencer_reactivation s' =
          metadata_updates_without_sequencer_reactivation s + length (filter isWrite cs)"
  then show "counts_attempts s s'"
    by (auto simp: counts_attempts_def)
qed

lemma counts_attempts_same:
  "calls s' = calls s \<Longrightarrow>
   sequencer_reactivations_for_metadata_update s' =
     sequencer_reactivations_for_metadata_update s \<Longrightarrow>
   metadata_updates_without_sequencer_reactivation s' =
     metadata_updates_without_sequencer_reactivation s \<Longrightarrow>
   counts_attempts s s'"
  by (simp add: counts_attempts_def)

lemma counts_attempts_trans:
  "counts_attempts s t \<Longrightarrow> counts_attempts t u \<Longrightarrow> counts_attempts s u"
  unfolding counts_attempts_iff by auto

lemma considerMetaDataUpdate_counts:
  "considerMetaDataUpdate env l md nr s = (r, s') \<Longrightarrow> counts_attempts s s'"
  by (auto simp: considerMetaDataUpdate_def Let_def call_def counts_attempts_def
        isActivation_def isWrite_def split: if_splits prod.splits)

lemma act_counts: "act env l e nr nu nm s = (rv, s') \<Longrightarrow> counts_attempts s s'"
  by (auto simp: act_def Let_def call_def fail_def counts_attempts_def
        isActivation_def isWrite_def split: if_splits option.splits bool.splits)

lemma fail_counts: "fail e s = (rv, s') \<Longrightarrow> counts_attempts s s'"
  by (auto simp: fail_def counts_attempts_def)

lemma reprovision_counts:
  "reprovisionOrReactivateIfNeeded env l seq s = (rv, s') \<Longrightarrow> counts_attempts s s'"
  unfolding reprovisionOrReactivateIfNeeded_def Let_def
  by (auto split: if_splits option.splits prod.splits sum.splits
           dest: fail_counts considerMetaDataUpdate_counts act_counts
           intro: counts_attempts_trans)

lemma processOneLog_counts:
  assumes "processOneLog env l tok s = (d, tok', s')"
  shows "counts_attempts s s'"
proof (cases "findAndNotify env l s")
  case (Inl s0)
  then have "s' = s0" using assms by (simp add: processOneLog_def)
  moreover have "counts_attempts s s0"
    using Inl
    by (auto simp: findAndNotify_def Let_def call_def counts_attempts_def
          isActivation_def isWrite_def split: option.splits if_splits prod.splits)
  ultimately show ?thesis by simp
next
  case (Inr x)
  obtain seq s1 where x: "x = (seq, s1)" by (cases x) auto
  have a: "counts_attempts s s1"
    using Inr [unfolded x]
    by (auto simp: findAndNotify_def Let_def call_def counts_attempts_def
          isActivation_def isWrite_def split: option.splits if_splits prod.splits)
  obtain rv s2 where r: "reprovisionOrReactivateIfNeeded env l seq s1 = (rv, s2)"
    by fastforce
  have b: "counts_attempts s1 s2" using r by (rule reprovision_counts)
  have "counts_attempts s2 s'"
    using processOneLog_via [OF Inr [unfolded x] r, of tok] assms
    by (auto intro!: counts_attempts_same split: if_splits)
  with a b show ?thesis by (blast intro: counts_attempts_trans)
qed

lemma processNext_counts: "counts_attempts s (snd (processNext env s))"
proof (cases "queue s")
  case Nil
  then show ?thesis by (simp add: processNext_def counts_attempts_same)
next
  case (Cons l q)
  obtain tok s1 where acq: "acquire s = (tok, s1)" by fastforce
  then have a: "counts_attempts s s1"
    by (auto simp: acquire_def Let_def intro!: counts_attempts_same
             split: option.splits prod.splits)
  obtain d tok' s2 where pol: "processOneLog env l tok s1 = (d, tok', s2)"
    by (metis prod_cases3)
  have b: "counts_attempts s1 s2" using pol by (rule processOneLog_counts)
  have "counts_attempts s2 (snd (processNext env s))"
    by (auto simp: processNext_via [OF Cons acq pol] bumpCompletedStat_def releaseToken_def
          activateQueueProcessingTimer_def intro!: counts_attempts_same)
  with a b show ?thesis by (blast intro: counts_attempts_trans)
qed

lemma processQueue_counts: "counts_attempts s (processQueue env mp k s)"
proof (induction env mp k s rule: processQueue.induct)
  case (1 env made_progress k s)
  show ?case
  proof (cases "queue s \<noteq> [] \<and> budget_available s > 0")
    case False
    then show ?thesis by (simp add: processQueue_stop counts_attempts_same)
  next
    case go: True
    show ?thesis
    proof (cases "made_progress \<and> usec_since env k > 2000")
      case True
      then have "processQueue env made_progress k s =
                   activateQueueProcessingTimer env (Some 5000) s"
        using go by (simp add: processQueue_yield)
      then show ?thesis
        by (simp add: activateQueueProcessingTimer_def counts_attempts_same)
    next
      case n: False
      obtain c s' where pn: "processNext env s = (c, s')" by fastforce
      have a: "counts_attempts s s'" using processNext_counts [of s env] by (simp add: pn)
      have step: "processQueue env made_progress k s =
                    (if c then processQueue env True (k + 1) s' else s')"
        using go n pn by (rule processQueue_step)
      show ?thesis
      proof (cases c)
        case True
        have "counts_attempts s' (processQueue env True (k + 1) s')"
          using go n refl pn [symmetric] True by (rule "1.IH")
        with a have "counts_attempts s (processQueue env True (k + 1) s')"
          by (rule counts_attempts_trans)
        then show ?thesis using True by (simp only: step if_True)
      next
        case False
        then show ?thesis using a by (simp only: step if_False)
      qed
    qed
  qed
qed

lemma maybeProcessQueue_counts: "counts_attempts s (maybeProcessQueue env s)"
proof -
  define s0 where "s0 = refreshBudget env (deactivateQueueProcessingTimer s)"
  have "counts_attempts s s0"
    by (auto simp: s0_def refreshBudget_def deactivateQueueProcessingTimer_def Let_def
          intro!: counts_attempts_same split: option.splits)
  moreover have "counts_attempts s0 (processQueue env False 0 s0)"
    by (rule processQueue_counts)
  ultimately show ?thesis
    unfolding maybeProcessQueue_def s0_def by (rule counts_attempts_trans)
qed

lemma schedule_counts: "counts_attempts s (schedule env log_ids s)"
proof -
  obtain q n where i: "insertAll env log_ids (queue s, 0) = (q, n)" by fastforce
  have "counts_attempts s (bumpScheduledStat n (s\<lparr>queue := q\<rparr>))"
    by (simp add: bumpScheduledStat_def counts_attempts_same)
  moreover have "counts_attempts (bumpScheduledStat n (s\<lparr>queue := q\<rparr>))
                   (maybeProcessQueue env (bumpScheduledStat n (s\<lparr>queue := q\<rparr>)))"
    by (rule maybeProcessQueue_counts)
  ultimately have "counts_attempts s
                     (maybeProcessQueue env (bumpScheduledStat n (s\<lparr>queue := q\<rparr>)))"
    by (rule counts_attempts_trans)
  then show ?thesis by (simp add: schedule_def i)
qed

lemma notifyCompletion_counts: "counts_attempts s (notifyCompletion env l st s)"
proof (cases "isMetaDataLog env l")
  case True
  then show ?thesis by (simp add: notifyCompletion_def counts_attempts_same)
next
  case False
  have a: "counts_attempts s (call (FindSequencer l) s)"
    by (simp add: counts_attempts_def call_def isActivation_def isWrite_def)
  show ?thesis
  proof (cases "sequencers s l")
    case None
    then show ?thesis using False a by (simp add: notifyCompletion_def Let_def call_def)
  next
    case (Some seq)
    have b: "counts_attempts (call (FindSequencer l) s)
               (reclaimAndRequeue env l seq (call (FindSequencer l) s))"
      by (auto simp: reclaimAndRequeue_def releaseToken_def bumpCompletedStat_def
            bumpScheduledStat_def Let_def intro!: counts_attempts_same split: prod.splits)
    have "notifyCompletion env l st s =
            maybeProcessQueue env (reclaimAndRequeue env l seq (call (FindSequencer l) s))"
      using False Some by (simp add: notifyCompletion_def Let_def call_def)
    then show ?thesis
      using a b maybeProcessQueue_counts counts_attempts_trans by metis
  qed
qed

text \<open>
  Claim C10. The counters count attempts, not successes: the counter of an action is
  bumped before the action is attempted, whatever the call then returns. Over a run of
  the reconciler, of the decision procedure, of \<^verbatim>\<open>maybeProcessQueue\<close>, of \<^verbatim>\<open>schedule\<close>
  and of \<^verbatim>\<open>notifyCompletion\<close>, \<^verbatim>\<open>sequencer_reactivations_for_metadata_update\<close> goes up by
  the number of activations asked of the registry and
  \<^verbatim>\<open>metadata_updates_without_sequencer_reactivation\<close> by the number of writes asked of the
  epoch store, accepted or refused. When the reconciler has decided to reactivate, its
  counter goes up by one and the activation is asked for; if the registry accepts, the
  reconciler returns \<open>0\<close> and the decision procedure moves the token into the sequencer
  and returns \<open>true\<close>; if the registry refuses with an error \<open>e\<close>, the reconciler
  returns \<open>-1\<close> with that error, with the counter up by one all the same, and the
  decision procedure keeps the token with its caller and returns \<open>false\<close> (defer) for the
  errors that are retried and \<open>true\<close> (done) for the others. The same holds of the write
  of the nodeset parameters and its counter.
\<close>

theorem action_counters_count_attempts:
  "counts_attempts t (snd (reprovisionOrReactivateIfNeeded env log_id seq t)) \<and>
   counts_attempts s (snd (snd (processOneLog env log_id token s))) \<and>
   counts_attempts s (maybeProcessQueue env s) \<and>
   counts_attempts s (schedule env log_ids s) \<and>
   counts_attempts s (notifyCompletion env log_id st s) \<and>
   (checksPass env log_id seq md logcfg opts
      \<and> findAndNotify env log_id s1 = Inr (seq, t)
      \<and> considerMetaDataUpdate env log_id md (immutableOptions env logcfg \<noteq> opts) t =
          (Inr (need_reactivation, need_epoch_metadata_update, new_metadata), t1) \<longrightarrow>
    (need_reactivation \<longrightarrow>
       (let t2 = t1\<lparr>sequencer_reactivations_for_metadata_update :=
                      sequencer_reactivations_for_metadata_update t + 1,
                    calls := calls t1 @
                      [ActivateSequencer log_id (h_epoch md + 1) new_metadata]\<rparr>
        in case activateSequencer env log_id (h_epoch md + 1) new_metadata of
             None \<Rightarrow>
               reprovisionOrReactivateIfNeeded env log_id seq t = (0, t2) \<and>
               processOneLog env log_id True s1 =
                 (True, False,
                  t2\<lparr>sequencers :=
                       (sequencers t2)
                         (log_id \<mapsto> seq\<lparr>background_activation_token := True\<rparr>)\<rparr>)
           | Some e \<Rightarrow>
               reprovisionOrReactivateIfNeeded env log_id seq t = (-1, t2\<lparr>err := e\<rparr>) \<and>
               processOneLog env log_id True s1 =
                 (e \<notin> {E_FAILED, E_NOBUFS, E_TOOMANY, E_NOTCONN, E_ACCESS}, True,
                  t2\<lparr>err := e\<rparr>))) \<and>
    (\<not> need_reactivation \<and> need_epoch_metadata_update \<and> new_metadata = Some nm \<longrightarrow>
       (let t2 = t1\<lparr>metadata_updates_without_sequencer_reactivation :=
                      metadata_updates_without_sequencer_reactivation t + 1,
                    calls := calls t1 @
                      [CreateOrUpdateMetaData log_id (h_epoch md + 1) (nodeset_params nm)]\<rparr>
        in case createOrUpdateMetaData env log_id (h_epoch md + 1) (nodeset_params nm) of
             None \<Rightarrow>
               reprovisionOrReactivateIfNeeded env log_id seq t = (0, t2) \<and>
               processOneLog env log_id True s1 =
                 (True, False,
                  t2\<lparr>sequencers :=
                       (sequencers t2)
                         (log_id \<mapsto> seq\<lparr>background_activation_token := True\<rparr>)\<rparr>)
           | Some e \<Rightarrow>
               reprovisionOrReactivateIfNeeded env log_id seq t = (-1, t2\<lparr>err := e\<rparr>) \<and>
               processOneLog env log_id True s1 =
                 (e \<notin> {E_FAILED, E_NOBUFS, E_TOOMANY, E_NOTCONN, E_ACCESS}, True,
                  t2\<lparr>err := e\<rparr>))))"
proof (intro conjI impI)
  show "counts_attempts t (snd (reprovisionOrReactivateIfNeeded env log_id seq t))"
    by (rule reprovision_counts [of env log_id seq t
          "fst (reprovisionOrReactivateIfNeeded env log_id seq t)"]) simp
  show "counts_attempts s (snd (snd (processOneLog env log_id token s)))"
    by (rule processOneLog_counts [of env log_id token s
          "fst (processOneLog env log_id token s)"
          "fst (snd (processOneLog env log_id token s))"]) simp
  show "counts_attempts s (maybeProcessQueue env s)"
    by (rule maybeProcessQueue_counts)
  show "counts_attempts s (schedule env log_ids s)"
    by (rule schedule_counts)
  show "counts_attempts s (notifyCompletion env log_id st s)"
    by (rule notifyCompletion_counts)
next
  assume ctx: "checksPass env log_id seq md logcfg opts
      \<and> findAndNotify env log_id s1 = Inr (seq, t)
      \<and> considerMetaDataUpdate env log_id md (immutableOptions env logcfg \<noteq> opts) t =
          (Inr (need_reactivation, need_epoch_metadata_update, new_metadata), t1)"
  assume nr: "need_reactivation"
  note cnt = considerMetaDataUpdate_counters [OF ctx [THEN conjunct2, THEN conjunct2]]
  define t2 where
    "t2 = t1\<lparr>sequencer_reactivations_for_metadata_update :=
                      sequencer_reactivations_for_metadata_update t + 1,
                    calls := calls t1 @
                      [ActivateSequencer log_id (h_epoch md + 1) new_metadata]\<rparr>"
  have r: "reprovisionOrReactivateIfNeeded env log_id seq t =
             (case activateSequencer env log_id (h_epoch md + 1) new_metadata of
                None \<Rightarrow> (0, t2) | Some e \<Rightarrow> (-1, t2\<lparr>err := e\<rparr>))"
    using ctx nr cnt
    by (simp add: reprovision_checked [of env log_id seq md logcfg opts] act_def Let_def
          call_def fail_def t2_def split: option.splits)
  have main: "case activateSequencer env log_id (h_epoch md + 1) new_metadata of
             None \<Rightarrow>
               reprovisionOrReactivateIfNeeded env log_id seq t = (0, t2) \<and>
               processOneLog env log_id True s1 =
                 (True, False,
                  t2\<lparr>sequencers :=
                       (sequencers t2)
                         (log_id \<mapsto> seq\<lparr>background_activation_token := True\<rparr>)\<rparr>)
           | Some e \<Rightarrow>
               reprovisionOrReactivateIfNeeded env log_id seq t = (-1, t2\<lparr>err := e\<rparr>) \<and>
               processOneLog env log_id True s1 =
                 (e \<notin> {E_FAILED, E_NOBUFS, E_TOOMANY, E_NOTCONN, E_ACCESS}, True,
                  t2\<lparr>err := e\<rparr>)"
  proof (cases "activateSequencer env log_id (h_epoch md + 1) new_metadata")
    case None
    then have r0: "reprovisionOrReactivateIfNeeded env log_id seq t = (0, t2)"
      by (simp add: r)
    from processOneLog_via [OF ctx [THEN conjunct2, THEN conjunct1] r0, of True] r0
    show ?thesis by (simp add: None)
  next
    case (Some e)
    then have r1: "reprovisionOrReactivateIfNeeded env log_id seq t = (-1, t2\<lparr>err := e\<rparr>)"
      by (simp add: r)
    from processOneLog_via [OF ctx [THEN conjunct2, THEN conjunct1] r1, of True] r1
    show ?thesis by (auto simp: Some)
  qed
  show "let t2 = t1\<lparr>sequencer_reactivations_for_metadata_update :=
                      sequencer_reactivations_for_metadata_update t + 1,
                    calls := calls t1 @
                      [ActivateSequencer log_id (h_epoch md + 1) new_metadata]\<rparr>
        in case activateSequencer env log_id (h_epoch md + 1) new_metadata of
             None \<Rightarrow>
               reprovisionOrReactivateIfNeeded env log_id seq t = (0, t2) \<and>
               processOneLog env log_id True s1 =
                 (True, False,
                  t2\<lparr>sequencers :=
                       (sequencers t2)
                         (log_id \<mapsto> seq\<lparr>background_activation_token := True\<rparr>)\<rparr>)
           | Some e \<Rightarrow>
               reprovisionOrReactivateIfNeeded env log_id seq t = (-1, t2\<lparr>err := e\<rparr>) \<and>
               processOneLog env log_id True s1 =
                 (e \<notin> {E_FAILED, E_NOBUFS, E_TOOMANY, E_NOTCONN, E_ACCESS}, True,
                  t2\<lparr>err := e\<rparr>)"
    unfolding Let_def t2_def [symmetric] by (rule main)
next
  assume ctx: "checksPass env log_id seq md logcfg opts
      \<and> findAndNotify env log_id s1 = Inr (seq, t)
      \<and> considerMetaDataUpdate env log_id md (immutableOptions env logcfg \<noteq> opts) t =
          (Inr (need_reactivation, need_epoch_metadata_update, new_metadata), t1)"
  assume nu: "\<not> need_reactivation \<and> need_epoch_metadata_update \<and> new_metadata = Some nm"
  note cnt = considerMetaDataUpdate_counters [OF ctx [THEN conjunct2, THEN conjunct2]]
  define t2 where
    "t2 = t1\<lparr>metadata_updates_without_sequencer_reactivation :=
                      metadata_updates_without_sequencer_reactivation t + 1,
                    calls := calls t1 @
                      [CreateOrUpdateMetaData log_id (h_epoch md + 1) (nodeset_params nm)]\<rparr>"
  have r: "reprovisionOrReactivateIfNeeded env log_id seq t =
             (case createOrUpdateMetaData env log_id (h_epoch md + 1) (nodeset_params nm) of
                None \<Rightarrow> (0, t2) | Some e \<Rightarrow> (-1, t2\<lparr>err := e\<rparr>))"
    using ctx nu cnt
    by (simp add: reprovision_checked [of env log_id seq md logcfg opts] act_def Let_def
          call_def fail_def t2_def split: option.splits)
  have main: "case createOrUpdateMetaData env log_id (h_epoch md + 1) (nodeset_params nm) of
             None \<Rightarrow>
               reprovisionOrReactivateIfNeeded env log_id seq t = (0, t2) \<and>
               processOneLog env log_id True s1 =
                 (True, False,
                  t2\<lparr>sequencers :=
                       (sequencers t2)
                         (log_id \<mapsto> seq\<lparr>background_activation_token := True\<rparr>)\<rparr>)
           | Some e \<Rightarrow>
               reprovisionOrReactivateIfNeeded env log_id seq t = (-1, t2\<lparr>err := e\<rparr>) \<and>
               processOneLog env log_id True s1 =
                 (e \<notin> {E_FAILED, E_NOBUFS, E_TOOMANY, E_NOTCONN, E_ACCESS}, True,
                  t2\<lparr>err := e\<rparr>)"
  proof (cases "createOrUpdateMetaData env log_id (h_epoch md + 1) (nodeset_params nm)")
    case None
    then have r0: "reprovisionOrReactivateIfNeeded env log_id seq t = (0, t2)"
      by (simp add: r)
    from processOneLog_via [OF ctx [THEN conjunct2, THEN conjunct1] r0, of True] r0
    show ?thesis by (simp add: None)
  next
    case (Some e)
    then have r1: "reprovisionOrReactivateIfNeeded env log_id seq t = (-1, t2\<lparr>err := e\<rparr>)"
      by (simp add: r)
    from processOneLog_via [OF ctx [THEN conjunct2, THEN conjunct1] r1, of True] r1
    show ?thesis by (auto simp: Some)
  qed
  show "let t2 = t1\<lparr>metadata_updates_without_sequencer_reactivation :=
                      metadata_updates_without_sequencer_reactivation t + 1,
                    calls := calls t1 @
                      [CreateOrUpdateMetaData log_id (h_epoch md + 1) (nodeset_params nm)]\<rparr>
        in case createOrUpdateMetaData env log_id (h_epoch md + 1) (nodeset_params nm) of
             None \<Rightarrow>
               reprovisionOrReactivateIfNeeded env log_id seq t = (0, t2) \<and>
               processOneLog env log_id True s1 =
                 (True, False,
                  t2\<lparr>sequencers :=
                       (sequencers t2)
                         (log_id \<mapsto> seq\<lparr>background_activation_token := True\<rparr>)\<rparr>)
           | Some e \<Rightarrow>
               reprovisionOrReactivateIfNeeded env log_id seq t = (-1, t2\<lparr>err := e\<rparr>) \<and>
               processOneLog env log_id True s1 =
                 (e \<notin> {E_FAILED, E_NOBUFS, E_TOOMANY, E_NOTCONN, E_ACCESS}, True,
                  t2\<lparr>err := e\<rparr>)"
    unfolding Let_def t2_def [symmetric] by (rule main)
qed


text \<open>
  The theorem at work: the epoch store refuses the parameters of log 1 with \<open>NOTCONN\<close>
  (defer), the registry refuses the activation of log 2 with \<open>NOTFOUND\<close> (done), and the
  registry accepts the activation of log 2 (the token moves into the sequencer). The
  counter is 1 each time.
\<close>

theorem action_counters_count_attempts_witness:
  "checksPass (params_env (Some E_NOTCONN)) 1 current_sequencer example_metadata 7 7 \<and>
   createOrUpdateMetaData (params_env (Some E_NOTCONN)) 1 6 2 = Some E_NOTCONN \<and>
   metadata_updates_without_sequencer_reactivation initial_state = 0 \<and>
   metadata_updates_without_sequencer_reactivation
     (snd (snd (processOneLog (params_env (Some E_NOTCONN)) 1 True initial_state))) = 1 \<and>
   \<not> fst (processOneLog (params_env (Some E_NOTCONN)) 1 True initial_state) \<and>
   fst (snd (processOneLog (params_env (Some E_NOTCONN)) 1 True initial_state)) \<and>
   checksPass (refusing_env E_NOTFOUND) 2 stale_sequencer example_metadata 7 8 \<and>
   activateSequencer (refusing_env E_NOTFOUND) 2 6 None = Some E_NOTFOUND \<and>
   sequencer_reactivations_for_metadata_update initial_state = 0 \<and>
   sequencer_reactivations_for_metadata_update
     (snd (snd (processOneLog (refusing_env E_NOTFOUND) 2 True initial_state))) = 1 \<and>
   fst (processOneLog (refusing_env E_NOTFOUND) 2 True initial_state) \<and>
   fst (snd (processOneLog (refusing_env E_NOTFOUND) 2 True initial_state)) \<and>
   checksPass example_env 2 stale_sequencer example_metadata 7 8 \<and>
   activateSequencer example_env 2 6 None = None \<and>
   sequencer_reactivations_for_metadata_update
     (snd (snd (processOneLog example_env 2 True initial_state))) = 1 \<and>
   fst (processOneLog example_env 2 True initial_state) \<and>
   \<not> fst (snd (processOneLog example_env 2 True initial_state)) \<and>
   counts_attempts initial_state
     (snd (snd (processOneLog example_env 2 True initial_state)))"
proof -
  define u where "u = snd (projr (findAndNotify (params_env (Some E_NOTCONN)) 1 initial_state))"
  define u1 where
    "u1 = snd (considerMetaDataUpdate (params_env (Some E_NOTCONN)) 1 example_metadata
                 (immutableOptions (params_env (Some E_NOTCONN)) 7 \<noteq> 7) u)"
  define v where "v = snd (projr (findAndNotify (refusing_env E_NOTFOUND) 2 initial_state))"
  define v1 where
    "v1 = snd (considerMetaDataUpdate (refusing_env E_NOTFOUND) 2 example_metadata
                 (immutableOptions (refusing_env E_NOTFOUND) 7 \<noteq> 8) v)"
  define w where "w = snd (projr (findAndNotify example_env 2 initial_state))"
  define w1 where
    "w1 = snd (considerMetaDataUpdate example_env 2 example_metadata
                 (immutableOptions example_env 7 \<noteq> 8) w)"
  have a: "checksPass (params_env (Some E_NOTCONN)) 1 current_sequencer example_metadata 7 7"
    by (simp add: params_env_def checksPass_def word_le_nat_alt concrete_defs)
  have b: "findAndNotify (params_env (Some E_NOTCONN)) 1 initial_state =
             Inr (current_sequencer, u)"
    by (simp add: u_def params_env_def checksPass_def word_le_nat_alt concrete_defs engine_defs)
  have c: "considerMetaDataUpdate (params_env (Some E_NOTCONN)) 1 example_metadata
             (immutableOptions (params_env (Some E_NOTCONN)) 7 \<noteq> 7) u =
           (Inr (False, True, Some (example_metadata\<lparr>h_epoch := 6, nodeset_params := 2\<rparr>)),
            u1)"
    by (simp add: u_def u1_def params_env_def checksPass_def word_le_nat_alt concrete_defs engine_defs)
  have d: "createOrUpdateMetaData (params_env (Some E_NOTCONN)) 1 (h_epoch example_metadata + 1)
             (nodeset_params (example_metadata\<lparr>h_epoch := 6, nodeset_params := 2\<rparr>)) =
           Some E_NOTCONN"
      "createOrUpdateMetaData (params_env (Some E_NOTCONN)) 1 6 2 = Some E_NOTCONN"
      "metadata_updates_without_sequencer_reactivation u = 0"
      "metadata_updates_without_sequencer_reactivation initial_state = 0"
    by (simp_all add: u_def params_env_def checksPass_def word_le_nat_alt concrete_defs engine_defs)
  have a': "checksPass (refusing_env E_NOTFOUND) 2 stale_sequencer example_metadata 7 8"
    by (simp add: refusing_env_def checksPass_def concrete_defs)
  have b': "findAndNotify (refusing_env E_NOTFOUND) 2 initial_state = Inr (stale_sequencer, v)"
    by (simp add: v_def refusing_env_def checksPass_def concrete_defs engine_defs)
  have c': "considerMetaDataUpdate (refusing_env E_NOTFOUND) 2 example_metadata
             (immutableOptions (refusing_env E_NOTFOUND) 7 \<noteq> 8) v =
           (Inr (True, False, None), v1)"
    by (simp add: v_def v1_def refusing_env_def checksPass_def concrete_defs engine_defs)
  have d': "activateSequencer (refusing_env E_NOTFOUND) 2 (h_epoch example_metadata + 1) None =
             Some E_NOTFOUND"
      "activateSequencer (refusing_env E_NOTFOUND) 2 6 None = Some E_NOTFOUND"
      "sequencer_reactivations_for_metadata_update v = 0"
      "sequencer_reactivations_for_metadata_update initial_state = 0"
    by (simp_all add: v_def refusing_env_def checksPass_def concrete_defs engine_defs)
  have a'': "checksPass example_env 2 stale_sequencer example_metadata 7 8"
    by (simp add: checksPass_def concrete_defs)
  have b'': "findAndNotify example_env 2 initial_state = Inr (stale_sequencer, w)"
    by (simp add: w_def checksPass_def concrete_defs engine_defs)
  have c'': "considerMetaDataUpdate example_env 2 example_metadata
             (immutableOptions example_env 7 \<noteq> 8) w =
           (Inr (True, False, None), w1)"
    by (simp add: w_def w1_def checksPass_def concrete_defs engine_defs)
  have d'': "activateSequencer example_env 2 (h_epoch example_metadata + 1) None = None"
      "activateSequencer example_env 2 6 None = None"
      "sequencer_reactivations_for_metadata_update w = 0"
    by (simp_all add: w_def checksPass_def concrete_defs engine_defs)
  note t1 = action_counters_count_attempts
      [THEN conjunct2, THEN conjunct2, THEN conjunct2, THEN conjunct2, THEN conjunct2,
       THEN mp, OF conjI [OF a conjI [OF b c]], THEN conjunct2, rule_format,
       of "example_metadata\<lparr>h_epoch := 6, nodeset_params := 2\<rparr>"]
  note t2 = action_counters_count_attempts
      [THEN conjunct2, THEN conjunct2, THEN conjunct2, THEN conjunct2, THEN conjunct2,
       THEN mp, OF conjI [OF a' conjI [OF b' c']], THEN conjunct1, rule_format]
  note t3 = action_counters_count_attempts
      [THEN conjunct2, THEN conjunct2, THEN conjunct2, THEN conjunct2, THEN conjunct2,
       THEN mp, OF conjI [OF a'' conjI [OF b'' c'']], THEN conjunct1, rule_format]
  note t4 = action_counters_count_attempts
      [where s = initial_state and env = example_env and log_id = 2 and token = True,
       THEN conjunct2, THEN conjunct1]
  have p1: "processOneLog (params_env (Some E_NOTCONN)) 1 True initial_state =
      (False, True, u1\<lparr>metadata_updates_without_sequencer_reactivation := 1,
         calls := calls u1 @ [CreateOrUpdateMetaData 1 (h_epoch example_metadata + 1) 2],
         err := E_NOTCONN\<rparr>)"
    using t1 d by (simp add: Let_def)
  have p2: "processOneLog (refusing_env E_NOTFOUND) 2 True initial_state =
      (True, True, v1\<lparr>sequencer_reactivations_for_metadata_update := 1,
         calls := calls v1 @ [ActivateSequencer 2 (h_epoch example_metadata + 1) None],
         err := E_NOTFOUND\<rparr>)"
    using t2 d' by (simp add: Let_def)
  have p3: "sequencer_reactivations_for_metadata_update
              (snd (snd (processOneLog example_env 2 True initial_state))) = 1"
      "fst (processOneLog example_env 2 True initial_state)"
      "\<not> fst (snd (processOneLog example_env 2 True initial_state))"
    using t3 d'' by (simp_all add: Let_def)
  show ?thesis
    using a a' a'' d(2,4) d'(2,4) d''(2) p3 t4 by (simp add: p1 p2)
qed

section \<open>The calls of the reconciler and of the decision procedure\<close>

lemma considerMetaDataUpdate_calls:
  assumes "considerMetaDataUpdate env l md nr s = (r, s')"
  shows "\<exists>cs. calls s' = calls s @ cs \<and> (\<forall>c \<in> set cs. \<exists>m. c = UpdateMetaDataIfNeeded l m)"
  using assms
  by (auto simp: considerMetaDataUpdate_def Let_def call_def split: if_splits prod.splits)

lemma act_calls:
  assumes "act env l e nr nu nm s = (rv, s')"
  shows "\<exists>cs. calls s' = calls s @ cs \<and>
          (\<forall>c \<in> set cs. c = ActivateSequencer l (e + 1) nm
                        \<or> (\<exists>p. c = CreateOrUpdateMetaData l (e + 1) p))"
  using assms
  by (auto simp: act_def Let_def call_def fail_def
           split: if_splits option.splits bool.splits)

lemma reprovision_calls:
  assumes "reprovisionOrReactivateIfNeeded env l seq s = (rv, s')"
  shows "\<exists>cs. calls s' = calls s @ cs \<and>
          (\<forall>l' e nm. ActivateSequencer l' e nm \<in> set cs \<longrightarrow>
             l' = l \<and> (\<exists>md. getCurrentMetaData seq = Some md \<and> e = h_epoch md + 1
                            \<and> unat e = unat (h_epoch md) + 1))"
proof (cases "\<exists>md logcfg opts. checksPass env l seq md logcfg opts")
  case True
  then obtain md logcfg opts where cp: "checksPass env l seq md logcfg opts" by blast
  obtain r s1 where c: "considerMetaDataUpdate env l md (immutableOptions env logcfg \<noteq> opts) s
                          = (r, s1)"
    by fastforce
  from considerMetaDataUpdate_calls [OF c] obtain cs1 where
    cs1: "calls s1 = calls s @ cs1" "\<forall>c \<in> set cs1. \<exists>m. c = UpdateMetaDataIfNeeded l m"
    by blast
  have nowrap: "unat (h_epoch md + 1) = unat (h_epoch md) + 1"
    using cp word_succ_no_wrap [of "h_epoch md" "EPOCH_MAX env - 2"]
    by (simp add: checksPass_def not_le)
  have md: "getCurrentMetaData seq = Some md"
    using cp by (simp add: checksPass_def)
  show ?thesis
  proof (cases r)
    case (Inl e)
    then have "calls s' = calls s1"
      using assms by (auto simp: reprovision_checked [OF cp] c fail_def)
    with cs1 show ?thesis by auto
  next
    case (Inr x)
    obtain nr nu nm where x: "x = (nr, nu, nm)" by (cases x) auto
    have a: "act env l (h_epoch md) nr nu nm s1 = (rv, s')"
      using assms by (simp add: reprovision_checked [OF cp] c Inr x)
    from act_calls [OF a] obtain cs2 where
      cs2: "calls s' = calls s1 @ cs2"
        "\<forall>c \<in> set cs2. c = ActivateSequencer l (h_epoch md + 1) nm
                        \<or> (\<exists>p. c = CreateOrUpdateMetaData l (h_epoch md + 1) p)"
      by blast
    have "calls s' = calls s @ (cs1 @ cs2)" using cs1 cs2 by simp
    moreover have "l' = l \<and> (\<exists>md. getCurrentMetaData seq = Some md \<and> e = h_epoch md + 1
                            \<and> unat e = unat (h_epoch md) + 1)"
      if "ActivateSequencer l' e nm' \<in> set (cs1 @ cs2)" for l' e nm'
      using that cs1(2) cs2(2) md nowrap by auto
    ultimately show ?thesis by blast
  qed
next
  case False
  then have "calls s' = calls s"
    using assms
    by (auto simp: reprovisionOrReactivateIfNeeded_def checksPass_def Let_def fail_def
             split: if_splits option.splits)
  then show ?thesis by simp
qed


lemma findAndNotify_Inl:
  assumes "findAndNotify env l s = Inl s'"
  shows "\<exists>cs. calls s' = calls s @ FindSequencer l # cs
              \<and> (\<forall>l' e nm. ActivateSequencer l' e nm \<notin> set cs)"
    and "l' \<noteq> l \<Longrightarrow> sequencers s' l' = sequencers s l'"
  using assms
  by (auto simp: findAndNotify_def Let_def call_def
           split: option.splits if_splits prod.splits)

lemma findAndNotify_Inr:
  assumes "findAndNotify env l s = Inr (seq, s1)"
  shows "sequencers s1 = (sequencers s)(l \<mapsto> seq)"
    and "\<not> background_activation_token seq"
    and "calls s1 = calls s @ [FindSequencer l, NoteConfigurationChanged l True]"
  using assms
  by (auto simp: findAndNotify_def Let_def call_def
           split: option.splits if_splits prod.splits)

lemma processOneLog_calls:
  assumes "processOneLog env l tok s = (d, tok', s')"
  shows "\<exists>cs. calls s' = calls s @ FindSequencer l # cs \<and>
          (\<forall>l' e nm. ActivateSequencer l' e nm \<in> set cs \<longrightarrow>
             l' = l \<and> (\<exists>seq md. sequencers s' l = Some seq \<and> getCurrentMetaData seq = Some md
                            \<and> e = h_epoch md + 1 \<and> unat e = unat (h_epoch md) + 1))"
proof (cases "findAndNotify env l s")
  case (Inl s0)
  then have "s' = s0" using assms by (simp add: processOneLog_def)
  with findAndNotify_Inl(1) [OF Inl] show ?thesis by auto
next
  case (Inr x)
  obtain seq s1 where x: "x = (seq, s1)" by (cases x) auto
  note fi = findAndNotify_Inr [OF Inr [unfolded x]]
  obtain rv s2 where r: "reprovisionOrReactivateIfNeeded env l seq s1 = (rv, s2)"
    by fastforce
  from reprovision_calls [OF r] obtain cs where
    cs: "calls s2 = calls s1 @ cs"
      "\<forall>l' e nm. ActivateSequencer l' e nm \<in> set cs \<longrightarrow>
             l' = l \<and> (\<exists>md. getCurrentMetaData seq = Some md \<and> e = h_epoch md + 1
                            \<and> unat e = unat (h_epoch md) + 1)"
    by blast
  have seqs: "sequencers s2 = sequencers s1"
    using reprovision_same [OF r] by (simp add: same_engine_def)
  have "calls s' = calls s2"
    and "\<exists>q. sequencers s' l = Some q \<and> getCurrentMetaData q = getCurrentMetaData seq"
    using processOneLog_via [OF Inr [unfolded x] r, of tok] assms seqs fi(1)
    by (auto split: if_splits)
  then show ?thesis
    using cs fi(3) by (auto 4 3)
qed

lemma processOneLog_others:
  assumes "processOneLog env l tok s = (d, tok', s')" and "l' \<noteq> l"
  shows "sequencers s' l' = sequencers s l'"
proof (cases "findAndNotify env l s")
  case (Inl s0)
  then have "s' = s0" using assms by (simp add: processOneLog_def)
  with findAndNotify_Inl(2) [OF Inl assms(2)] show ?thesis by simp
next
  case (Inr x)
  obtain seq s1 where x: "x = (seq, s1)" by (cases x) auto
  note fi = findAndNotify_Inr [OF Inr [unfolded x]]
  obtain rv s2 where r: "reprovisionOrReactivateIfNeeded env l seq s1 = (rv, s2)"
    by fastforce
  have seqs: "sequencers s2 = sequencers s1"
    using reprovision_same [OF r] by (simp add: same_engine_def)
  show ?thesis
    using processOneLog_via [OF Inr [unfolded x] r, of tok] assms seqs fi(1)
    by (auto split: if_splits)
qed

section \<open>Tokens through the loop\<close>

lemma attached_update:
  "attached (s\<lparr>sequencers := (sequencers s)(l \<mapsto> seq)\<rparr>) =
     (if background_activation_token seq then insert l (attached s) else attached s - {l})"
  by (auto simp: attached_def)

lemma attached_cong: "sequencers s' = sequencers s \<Longrightarrow> attached s' = attached s"
  by (simp add: attached_def)

lemma conserved_cong:
  "sequencers s' = sequencers s \<Longrightarrow> budget s' = budget s \<Longrightarrow> conserved s' = conserved s"
  by (auto simp: conserved_def attached_def split: option.splits)

lemma findAndNotify_attached:
  "findAndNotify env l s = Inl s' \<Longrightarrow> attached s' = attached s"
  "findAndNotify env l s = Inr (seq, s1) \<Longrightarrow> l \<notin> attached s"
  "findAndNotify env l s = Inr (seq, s1) \<Longrightarrow> attached s1 = attached s"
  by (auto simp: findAndNotify_def Let_def call_def attached_def
           split: option.splits if_splits prod.splits)

lemma processOneLog_attached:
  assumes "processOneLog env l True s = (d, tok', s')"
  shows "(tok' \<and> attached s' = attached s)
         \<or> (\<not> tok' \<and> d \<and> l \<notin> attached s \<and> attached s' = insert l (attached s))"
proof (cases "findAndNotify env l s")
  case (Inl s0)
  then have "s' = s0" "tok'" using assms by (simp_all add: processOneLog_def)
  with findAndNotify_attached(1) [OF Inl] show ?thesis by simp
next
  case (Inr x)
  obtain seq s1 where x: "x = (seq, s1)" by (cases x) auto
  note fi = findAndNotify_attached(2,3) [OF Inr [unfolded x]]
  obtain rv s2 where r: "reprovisionOrReactivateIfNeeded env l seq s1 = (rv, s2)"
    by fastforce
  have seqs: "sequencers s2 = sequencers s1"
    using reprovision_same [OF r] by (simp add: same_engine_def)
  then have att: "attached s2 = attached s" using fi(2) by (simp add: attached_def)
  show ?thesis
  proof (cases "rv = -1")
    case True
    then show ?thesis
      using processOneLog_via [OF Inr [unfolded x] r, of True] assms att by auto
  next
    case False
    then have "\<not> tok'" "d"
      "s' = s2\<lparr>sequencers :=
                (sequencers s2)(l \<mapsto> seq\<lparr>background_activation_token := True\<rparr>)\<rparr>"
      using processOneLog_via [OF Inr [unfolded x] r, of True] assms by auto
    then show ?thesis using att fi(1) by (simp add: attached_update)
  qed
qed


lemma acquire_available:
  assumes "0 < budget_available s"
  shows "\<exists>b. budget s = Some b \<and> budget_used b < budget_limit b \<and>
             acquire s = (True, s\<lparr>budget := Some (b\<lparr>budget_used := budget_used b + 1\<rparr>)\<rparr>)"
  using assms
  by (auto simp: budget_available_def available_def acquire_def acquireToken_def
           split: option.splits)

lemma attached_frame:
  "attached (s\<lparr>queue := q\<rparr>) = attached s"
  "attached (s\<lparr>budget := bb\<rparr>) = attached s"
  "attached (s\<lparr>retry_timer := r\<rparr>) = attached s"
  "attached (bumpCompletedStat n s) = attached s"
  "attached (bumpScheduledStat n s) = attached s"
  "attached (releaseToken tk s) = attached s"
  "attached (activateQueueProcessingTimer env x s) = attached s"
  "attached (call c s) = attached s"
  by (simp_all add: attached_def bumpCompletedStat_def bumpScheduledStat_def releaseToken_def
        activateQueueProcessingTimer_def call_def)

lemma budget_frame:
  "budget (bumpCompletedStat n s) = budget s"
  "budget (bumpScheduledStat n s) = budget s"
  "budget (activateQueueProcessingTimer env x s) = budget s"
  "budget (call c s) = budget s"
  "budget (releaseToken tk s) = map_option (release tk) (budget s)"
  by (simp_all add: bumpCompletedStat_def bumpScheduledStat_def releaseToken_def
        activateQueueProcessingTimer_def call_def)

lemma release_acquired:
  "release True (b\<lparr>budget_used := budget_used b + 1\<rparr>) = b"
  "release True (b\<lparr>budget_used := Suc (budget_used b)\<rparr>) = b"
  by (simp_all add: release_def)

lemma processNext_conserved:
  assumes "conserved s" and "0 < budget_available s"
  shows "conserved (snd (processNext env s))"
proof (cases "queue s")
  case Nil
  then show ?thesis using assms by (simp add: processNext_def)
next
  case (Cons l q)
  from acquire_available [OF assms(2)] obtain b where
    b: "budget s = Some b" and
    acq: "acquire s = (True, s\<lparr>budget := Some (b\<lparr>budget_used := budget_used b + 1\<rparr>)\<rparr>)"
    by blast
  define s1 where "s1 = s\<lparr>budget := Some (b\<lparr>budget_used := budget_used b + 1\<rparr>)\<rparr>"
  obtain d tok' s2 where pol: "processOneLog env l True s1 = (d, tok', s2)"
    by (metis prod_cases3)
  have b2: "budget s2 = Some (b\<lparr>budget_used := budget_used b + 1\<rparr>)"
    using processOneLog_budget [OF pol] by (simp add: s1_def)
  have used: "budget_used b = card (attached s)"
    using assms(1) b by (simp add: conserved_def)
  have att1: "attached s1 = attached s" by (simp add: s1_def attached_frame)
  note pn = processNext_via [OF Cons acq [folded s1_def] pol]
  from processOneLog_attached [OF pol]
  show ?thesis
  proof (elim disjE conjE)
    assume kept: "tok'" "attached s2 = attached s1"
    have "budget (snd (processNext env s)) = Some b"
      using kept(1) by (simp add: pn budget_frame b2 release_acquired)
    moreover have "attached (snd (processNext env s)) = attached s"
      using kept att1 by (simp add: pn attached_frame)
    ultimately show ?thesis using used by (simp add: conserved_def)
  next
    assume moved: "\<not> tok'" "d" "l \<notin> attached s1" "attached s2 = insert l (attached s1)"
    have "budget (snd (processNext env s)) = Some (b\<lparr>budget_used := budget_used b + 1\<rparr>)"
      using moved(1,2) by (simp add: pn b2)
    moreover have "attached (snd (processNext env s)) = insert l (attached s)"
      using moved att1 by (simp add: pn attached_frame)
    moreover have "card (insert l (attached s)) = card (attached s) + 1"
      using moved(3) att1 by simp
    ultimately show ?thesis using used by (simp add: conserved_def)
  qed
qed


lemma processQueue_conserved: "conserved s \<Longrightarrow> conserved (processQueue env mp k s)"
proof (induction env mp k s rule: processQueue.induct)
  case (1 env made_progress k s)
  show ?case
  proof (cases "queue s \<noteq> [] \<and> budget_available s > 0")
    case False
    then show ?thesis using "1.prems" by (simp add: processQueue_stop)
  next
    case go: True
    show ?thesis
    proof (cases "made_progress \<and> usec_since env k > 2000")
      case True
      then have "processQueue env made_progress k s =
                   activateQueueProcessingTimer env (Some 5000) s"
        using go by (rule processQueue_yield [rotated])
      then show ?thesis
        using "1.prems" conserved_cong [of "s\<lparr>retry_timer := Some 5000\<rparr>" s]
        by (simp add: activateQueueProcessingTimer_def)
    next
      case n: False
      obtain c s' where pn: "processNext env s = (c, s')" by fastforce
      have cs': "conserved s'"
        using processNext_conserved [OF "1.prems", of env] go by (simp add: pn)
      have step: "processQueue env made_progress k s =
                    (if c then processQueue env True (k + 1) s' else s')"
        using go n pn by (rule processQueue_step)
      show ?thesis
      proof (cases c)
        case True
        have "conserved (processQueue env True (k + 1) s')"
          using go n refl pn [symmetric] True cs' by (rule "1.IH")
        then show ?thesis using True by (simp only: step if_True)
      next
        case False
        then show ?thesis using cs' by (simp only: step if_False)
      qed
    qed
  qed
qed


lemma refreshBudget_conserved: "conserved s \<Longrightarrow> conserved (refreshBudget env s)"
  by (auto simp: refreshBudget_def conserved_def setLimit_def attached_frame Let_def
           split: option.splits)

lemma refreshBudget_limit:
  "\<exists>b. budget (refreshBudget env s) = Some b \<and>
        budget_limit b = max_sequencer_background_activations_in_flight (settings env)"
  by (auto simp: refreshBudget_def setLimit_def Let_def split: option.splits)

lemma processNext_limit:
  assumes "budget s = Some b"
  shows "\<exists>b'. budget (snd (processNext env s)) = Some b' \<and> budget_limit b' = budget_limit b"
proof (cases "queue s")
  case Nil
  then show ?thesis using assms by (simp add: processNext_def)
next
  case (Cons l q)
  obtain tok s1 where acq: "acquire s = (tok, s1)" by fastforce
  then have b1: "\<exists>b1. budget s1 = Some b1 \<and> budget_limit b1 = budget_limit b"
    using assms by (auto simp: acquire_def acquireToken_def split: if_splits)
  obtain d tok' s2 where pol: "processOneLog env l tok s1 = (d, tok', s2)"
    by (metis prod_cases3)
  have "budget s2 = budget s1" by (rule processOneLog_budget [OF pol])
  with b1 show ?thesis
    by (auto simp: processNext_via [OF Cons acq pol] budget_frame release_def)
qed

lemma processQueue_limit:
  "budget s = Some b \<Longrightarrow>
   \<exists>b'. budget (processQueue env mp k s) = Some b' \<and> budget_limit b' = budget_limit b"
proof (induction env mp k s arbitrary: b rule: processQueue.induct)
  case (1 env made_progress k s)
  show ?case
  proof (cases "queue s \<noteq> [] \<and> budget_available s > 0")
    case False
    then show ?thesis using "1.prems" by (simp add: processQueue_stop)
  next
    case go: True
    show ?thesis
    proof (cases "made_progress \<and> usec_since env k > 2000")
      case True
      then have "processQueue env made_progress k s =
                   activateQueueProcessingTimer env (Some 5000) s"
        using go by (rule processQueue_yield [rotated])
      then show ?thesis using "1.prems" by (simp add: budget_frame)
    next
      case n: False
      obtain c s' where pn: "processNext env s = (c, s')" by fastforce
      from processNext_limit [OF "1.prems", of env] obtain b1 where
        b1: "budget s' = Some b1" "budget_limit b1 = budget_limit b"
        by (auto simp: pn)
      have step: "processQueue env made_progress k s =
                    (if c then processQueue env True (k + 1) s' else s')"
        using go n pn by (rule processQueue_step)
      show ?thesis
      proof (cases c)
        case True
        from "1.IH" [OF go n refl pn [symmetric] True b1(1)] b1(2)
        show ?thesis using True by (simp only: step if_True)
      next
        case False
        then show ?thesis using b1 by (simp only: step if_False) simp
      qed
    qed
  qed
qed

lemma maybeProcessQueue_conserved: "conserved s \<Longrightarrow> conserved (maybeProcessQueue env s)"
  unfolding maybeProcessQueue_def
  by (intro processQueue_conserved refreshBudget_conserved)
     (simp add: deactivateQueueProcessingTimer_def
        conserved_cong [of "s\<lparr>retry_timer := None\<rparr>" s])

lemma maybeProcessQueue_limit:
  "\<exists>b. budget (maybeProcessQueue env s) = Some b \<and>
        budget_limit b = max_sequencer_background_activations_in_flight (settings env)"
proof -
  from refreshBudget_limit [of env "deactivateQueueProcessingTimer s"] obtain b where
    b: "budget (refreshBudget env (deactivateQueueProcessingTimer s)) = Some b"
      "budget_limit b = max_sequencer_background_activations_in_flight (settings env)"
    by blast
  from processQueue_limit [OF b(1), of env False 0] b(2)
  show ?thesis by (simp add: maybeProcessQueue_def)
qed

lemma schedule_conserved: "conserved s \<Longrightarrow> conserved (schedule env log_ids s)"
proof -
  assume c: "conserved s"
  obtain q n where i: "insertAll env log_ids (queue s, 0) = (q, n)" by fastforce
  have "conserved (bumpScheduledStat n (s\<lparr>queue := q\<rparr>))"
    using c conserved_cong [of "bumpScheduledStat n (s\<lparr>queue := q\<rparr>)" s]
    by (simp add: bumpScheduledStat_def)
  then show ?thesis
    by (simp add: schedule_def i maybeProcessQueue_conserved)
qed

lemma reclaimAndRequeue_conserved:
  assumes "conserved s" and "sequencers s l = Some seq"
  shows "conserved (reclaimAndRequeue env l seq s)"
proof -
  obtain q ins where qi: "queue_insert env l (queue s) = (q, ins)" by fastforce
  show ?thesis
  proof (cases "background_activation_token seq")
    case False
    then have "sequencers (reclaimAndRequeue env l seq s) = sequencers s"
      "budget (reclaimAndRequeue env l seq s) = budget s"
      by (simp_all add: reclaimAndRequeue_def qi bumpScheduledStat_def Let_def)
    then show ?thesis using assms(1) conserved_cong by blast
  next
    case True
    then have in_att: "l \<in> attached s" using assms(2) by (simp add: attached_def)
    have seqs: "sequencers (reclaimAndRequeue env l seq s) =
            (sequencers s)(l \<mapsto> seq\<lparr>background_activation_token := False\<rparr>)"
      and bud: "budget (reclaimAndRequeue env l seq s) = map_option (release True) (budget s)"
      using True
      by (simp_all add: reclaimAndRequeue_def queue_insert_def releaseToken_def
            bumpCompletedStat_def Let_def)
    have att: "attached (reclaimAndRequeue env l seq s) = attached s - {l}"
      using seqs by (auto simp: attached_def)
    show ?thesis
    proof (cases "budget s")
      case None
      then show ?thesis using assms(1) in_att by (simp add: conserved_def)
    next
      case (Some b)
      then have "budget_used b = card (attached s)"
        using assms(1) by (simp add: conserved_def)
      then show ?thesis
        using in_att by (simp add: conserved_def bud Some att release_def)
    qed
  qed
qed

lemma notifyCompletion_conserved:
  "conserved s \<Longrightarrow> conserved (notifyCompletion env l st s)"
proof -
  assume c: "conserved s"
  have cc: "conserved (call (FindSequencer l) s)"
    using c conserved_cong [of "call (FindSequencer l) s" s] by (simp add: call_def)
  show ?thesis
  proof (cases "isMetaDataLog env l")
    case True
    then show ?thesis using c by (simp add: notifyCompletion_def)
  next
    case False
    show ?thesis
    proof (cases "sequencers s l")
      case None
      then show ?thesis using False cc by (simp add: notifyCompletion_def call_def)
    next
      case (Some seq)
      then have "sequencers (call (FindSequencer l) s) l = Some seq"
        by (simp add: call_def)
      from reclaimAndRequeue_conserved [OF cc this, of env]
      have "conserved (maybeProcessQueue env
                         (reclaimAndRequeue env l seq (call (FindSequencer l) s)))"
        by (rule maybeProcessQueue_conserved)
      then show ?thesis
        using False Some by (simp add: notifyCompletion_def Let_def call_def)
    qed
  qed
qed


section \<open>Conservation of tokens\<close>

lemma conserved_sum:
  assumes "conserved s" and "budget s = Some b"
      and "card (attached s) \<le> budget_limit b"
  shows "budget_available s + card (attached s) = budget_limit b"
  using assms by (simp add: conserved_def budget_available_def available_def)

text \<open>
  Claim C8, amended. In every state the activator is left in, the number of tokens held
  by sequencers is the number of credits drawn from the budget: the invariant holds
  before the first call and is kept by \<^verbatim>\<open>maybeProcessQueue\<close>, \<^verbatim>\<open>schedule\<close> and
  \<^verbatim>\<open>notifyCompletion\<close>. Each iteration of the drain loop keeps it, because the token it
  acquires is moved into the sequencer of the log or released before the iteration
  ends, and the completion intake keeps it, because it releases the token of the
  sequencer once and leaves the sequencer without one. After a drain the free credits
  and the attached tokens add up to the configured limit whenever the limit is not
  below the number of attached tokens; when the setting has been lowered below that
  number, there are no free credits and the sum is above the limit until enough actions
  complete.
\<close>

theorem token_conservation:
  assumes "conserved s"
  shows "conserved (maybeProcessQueue env s) \<and>
         conserved (schedule env log_ids s) \<and>
         conserved (notifyCompletion env logid st s) \<and>
         (0 < budget_available s \<longrightarrow> conserved (snd (processNext env s))) \<and>
         (sequencers s logid = Some seq \<longrightarrow>
            conserved (reclaimAndRequeue env logid seq s) \<and>
            logid \<notin> attached (reclaimAndRequeue env logid seq s)) \<and>
         (card (attached (maybeProcessQueue env s))
            \<le> max_sequencer_background_activations_in_flight (settings env) \<longrightarrow>
          budget_available (maybeProcessQueue env s) + card (attached (maybeProcessQueue env s))
            = max_sequencer_background_activations_in_flight (settings env))"
proof (intro conjI impI)
  show m: "conserved (maybeProcessQueue env s)"
    using assms by (rule maybeProcessQueue_conserved)
  show "conserved (schedule env log_ids s)"
    using assms by (rule schedule_conserved)
  show "conserved (notifyCompletion env logid st s)"
    using assms by (rule notifyCompletion_conserved)
  show "conserved (snd (processNext env s))" if "0 < budget_available s"
    using assms that by (rule processNext_conserved)
  show "conserved (reclaimAndRequeue env logid seq s)" if "sequencers s logid = Some seq"
    using assms that by (rule reclaimAndRequeue_conserved)
  show "logid \<notin> attached (reclaimAndRequeue env logid seq s)"
    if "sequencers s logid = Some seq"
    using that
    by (auto simp: reclaimAndRequeue_def attached_def queue_insert_def releaseToken_def
          bumpCompletedStat_def bumpScheduledStat_def Let_def)
  show "budget_available (maybeProcessQueue env s) + card (attached (maybeProcessQueue env s))
            = max_sequencer_background_activations_in_flight (settings env)"
    if "card (attached (maybeProcessQueue env s))
            \<le> max_sequencer_background_activations_in_flight (settings env)"
    using maybeProcessQueue_limit [of env s] conserved_sum [OF m] that by auto
qed

lemma attached_initial: "attached initial_state = {}"
  by (auto simp: attached_def concrete_defs split: if_splits)

lemma conserved_initial: "conserved initial_state"
proof -
  have "budget initial_state = None" by (simp add: initial_state_def)
  then show ?thesis by (simp add: conserved_def attached_initial)
qed

text \<open>
  The theorem at work: from the state before the first call, with the logs 2 and 3
  scheduled, and with log 2 pending.
\<close>

theorem token_conservation_witness:
  "conserved initial_state \<and>
   conserved (schedule example_env [2, 3] initial_state) \<and>
   budget (maybeProcessQueue example_env (initial_state\<lparr>queue := [2]\<rparr>)) =
     Some \<lparr>budget_limit = 2, budget_used = 1\<rparr> \<and>
   card (attached (maybeProcessQueue example_env (initial_state\<lparr>queue := [2]\<rparr>))) = 1 \<and>
   budget_available (maybeProcessQueue example_env (initial_state\<lparr>queue := [2]\<rparr>)) = 1"
proof -
  note a = conserved_initial
  have b: "budget (maybeProcessQueue example_env (initial_state\<lparr>queue := [2]\<rparr>)) =
             Some \<lparr>budget_limit = 2, budget_used = 1\<rparr>"
    by (simp add: concrete_defs engine_defs processQueue.simps)
  have c: "conserved (initial_state\<lparr>queue := [2]\<rparr>)"
    using a conserved_cong [of "initial_state\<lparr>queue := [2]\<rparr>" initial_state] by simp
  note t = token_conservation [OF a, of example_env "[2, 3]"]
  note u = token_conservation [OF c, of example_env]
  have d: "card (attached (maybeProcessQueue example_env (initial_state\<lparr>queue := [2]\<rparr>))) = 1"
    using u [THEN conjunct1] b by (simp add: conserved_def)
  show ?thesis
    using a t [THEN conjunct2, THEN conjunct1] b d
    by (simp add: budget_available_def available_def)
qed

text \<open>
  Claim C8 as it is written has the sum equal to the limit at every quiescent moment.
  With a limit of 2 the logs 2 and 3 are reactivated and both tokens are attached; the
  setting is then lowered to 1 and log 5 is scheduled. After that call nothing is free,
  two tokens are attached and the limit is 1.
\<close>

theorem lowered_limit_breaks_the_sum:
  "budget initial_state = None \<and> attached initial_state = {} \<and>
   max_sequencer_background_activations_in_flight (settings lowered_env) = 1 \<and>
   budget (schedule lowered_env [5] (schedule example_env [2, 3] initial_state)) =
     Some \<lparr>budget_limit = 1, budget_used = 2\<rparr> \<and>
   budget_available (schedule lowered_env [5] (schedule example_env [2, 3] initial_state)) = 0 \<and>
   card (attached (schedule lowered_env [5] (schedule example_env [2, 3] initial_state))) = 2 \<and>
   budget_available (schedule lowered_env [5] (schedule example_env [2, 3] initial_state))
     + card (attached (schedule lowered_env [5] (schedule example_env [2, 3] initial_state)))
     \<noteq> max_sequencer_background_activations_in_flight (settings lowered_env)"
proof -
  note a = conserved_initial
  have b: "budget (schedule lowered_env [5] (schedule example_env [2, 3] initial_state)) =
     Some \<lparr>budget_limit = 1, budget_used = 2\<rparr>"
    by (simp add: lowered_env_def concrete_defs engine_defs processQueue.simps)
  have "conserved (schedule lowered_env [5] (schedule example_env [2, 3] initial_state))"
    by (intro schedule_conserved a)
  then have c: "card (attached (schedule lowered_env [5]
                         (schedule example_env [2, 3] initial_state))) = 2"
    using b by (simp add: conserved_def)
  have d: "budget initial_state = None"
    "max_sequencer_background_activations_in_flight (settings lowered_env) = 1"
    by (simp_all add: lowered_env_def example_env_def initial_state_def)
  show ?thesis
    using b c d by (simp add: budget_available_def available_def attached_initial)
qed


section \<open>The calls of the loop\<close>

lemma next_epoch_cong: "sequencers s' l = sequencers s l \<Longrightarrow> next_epoch s' l e = next_epoch s l e"
  by (simp add: next_epoch_def)

lemma next_epoch_iff:
  "next_epoch s l e \<longleftrightarrow>
     (\<exists>seq md. sequencers s l = Some seq \<and> getCurrentMetaData seq = Some md
                \<and> e = h_epoch md + 1 \<and> unat e = unat (h_epoch md) + 1)"
  by (auto simp: next_epoch_def split: option.splits)

lemma processNext_calls:
  assumes "queue s = l # q"
  shows "\<exists>cs. calls (snd (processNext env s)) = calls s @ FindSequencer l # cs \<and>
          (\<forall>l' e nm. ActivateSequencer l' e nm \<in> set cs \<longrightarrow>
             l' = l \<and> next_epoch (snd (processNext env s)) l e)"
proof -
  obtain tok s1 where acq: "acquire s = (tok, s1)" by fastforce
  then have c1: "calls s1 = calls s"
    by (auto simp: acquire_def Let_def split: option.splits prod.splits)
  obtain d tok' s2 where pol: "processOneLog env l tok s1 = (d, tok', s2)"
    by (metis prod_cases3)
  from processOneLog_calls [OF pol] obtain cs where
    cs: "calls s2 = calls s1 @ FindSequencer l # cs"
      "\<forall>l' e nm. ActivateSequencer l' e nm \<in> set cs \<longrightarrow>
             l' = l \<and> (\<exists>seq md. sequencers s2 l = Some seq \<and> getCurrentMetaData seq = Some md
                            \<and> e = h_epoch md + 1 \<and> unat e = unat (h_epoch md) + 1)"
    by blast
  note pn = processNext_via [OF assms acq pol]
  have "calls (snd (processNext env s)) = calls s2"
    and seqs: "sequencers (snd (processNext env s)) = sequencers s2"
    by (simp_all add: pn bumpCompletedStat_def releaseToken_def
          activateQueueProcessingTimer_def)
  moreover have "next_epoch (snd (processNext env s)) l e"
    if "ActivateSequencer l' e nm \<in> set cs" for l' e nm
    using cs(2) that seqs unfolding next_epoch_iff by metis
  ultimately show ?thesis using cs c1 by auto
qed

lemma processNext_others:
  assumes "queue s = l # q" and "l' \<noteq> l"
  shows "sequencers (snd (processNext env s)) l' = sequencers s l'"
proof -
  obtain tok s1 where acq: "acquire s = (tok, s1)" by fastforce
  then have c1: "sequencers s1 = sequencers s"
    by (auto simp: acquire_def Let_def split: option.splits prod.splits)
  obtain d tok' s2 where pol: "processOneLog env l tok s1 = (d, tok', s2)"
    by (metis prod_cases3)
  note pn = processNext_via [OF assms(1) acq pol]
  have "sequencers (snd (processNext env s)) = sequencers s2"
    by (simp add: pn bumpCompletedStat_def releaseToken_def activateQueueProcessingTimer_def)
  with processOneLog_others [OF pol assms(2)] c1 show ?thesis by simp
qed

lemma processNext_queue:
  assumes "queue s = l # q" and "processNext env s = (True, s')"
  shows "queue s' = q"
proof -
  obtain tok s1 where acq: "acquire s = (tok, s1)" by fastforce
  obtain d tok' s2 where pol: "processOneLog env l tok s1 = (d, tok', s2)"
    by (metis prod_cases3)
  show ?thesis
    using processNext_via [OF assms(1) acq pol] assms(2)
    by (auto simp: bumpCompletedStat_def releaseToken_def split: if_splits)
qed




section \<open>The time slice of the drain loop\<close>






section \<open>The epoch of a reactivation\<close>

lemma processQueue_reactivations:
  assumes "distinct (queue s)"
  shows "(\<forall>l. l \<notin> set (queue s) \<longrightarrow> sequencers (processQueue env mp k s) l = sequencers s l) \<and>
         (\<exists>cs. calls (processQueue env mp k s) = calls s @ cs \<and>
            (\<forall>l e nm. ActivateSequencer l e nm \<in> set cs \<longrightarrow>
               next_epoch (processQueue env mp k s) l e))"
  using assms
proof (induction env mp k s rule: processQueue.induct)
  case (1 env made_progress k s)
  show ?case
  proof (cases "queue s \<noteq> [] \<and> budget_available s > 0")
    case False
    then show ?thesis by (simp add: processQueue_stop)
  next
    case go: True
    show ?thesis
    proof (cases "made_progress \<and> usec_since env k > 2000")
      case True
      then have "processQueue env made_progress k s =
                   activateQueueProcessingTimer env (Some 5000) s"
        using go by (rule processQueue_yield [rotated])
      then show ?thesis by (simp add: activateQueueProcessingTimer_def)
    next
      case n: False
      obtain c s' where pn: "processNext env s = (c, s')" by fastforce
      obtain l q where lq: "queue s = l # q" using go by (cases "queue s") auto
      have lq': "l \<notin> set q" "distinct q" using "1.prems" lq by simp_all
      from processNext_calls [OF lq, of env] obtain cs1 where
        cs1: "calls s' = calls s @ FindSequencer l # cs1"
          "\<forall>l' e nm. ActivateSequencer l' e nm \<in> set cs1 \<longrightarrow> l' = l \<and> next_epoch s' l e"
        by (auto simp: pn)
      have others: "sequencers s' x = sequencers s x" if "x \<noteq> l" for x
        using processNext_others [OF lq that, of env] by (simp add: pn)
      have step: "processQueue env made_progress k s =
                    (if c then processQueue env True (k + 1) s' else s')"
        using go n pn by (rule processQueue_step)
      show ?thesis
      proof (cases c)
        case True
        define R where "R = processQueue env True (k + 1) s'"
        have q': "queue s' = q" using processNext_queue [OF lq] pn True by simp
        from "1.IH" [OF go n refl pn [symmetric] True] lq'(2) q'
        obtain cs2 where
          ih: "\<forall>x. x \<notin> set q \<longrightarrow> sequencers R x = sequencers s' x"
            "calls R = calls s' @ cs2"
            "\<forall>l e nm. ActivateSequencer l e nm \<in> set cs2 \<longrightarrow> next_epoch R l e"
          unfolding R_def by auto
        have R: "processQueue env made_progress k s = R"
          using True by (simp only: step R_def if_True)
        have 1: "\<forall>x. x \<notin> set (queue s) \<longrightarrow> sequencers R x = sequencers s x"
          using ih(1) others lq by simp
        have "next_epoch R l e" if "ActivateSequencer l' e nm \<in> set cs1" for l' e nm
          using cs1(2) that ih(1) lq'(1) next_epoch_cong [of R l s' e] by blast
        then have 2: "\<forall>l' e nm. ActivateSequencer l' e nm \<in> set (FindSequencer l # cs1 @ cs2)
                        \<longrightarrow> next_epoch R l' e"
          using cs1(2) ih(3) by auto
        have 3: "calls R = calls s @ (FindSequencer l # cs1 @ cs2)"
          using ih(2) cs1(1) by simp
        show ?thesis unfolding R using 1 2 3 by blast
      next
        case False
        have R: "processQueue env made_progress k s = s'"
          using False by (simp only: step if_False)
        have 1: "\<forall>x. x \<notin> set (queue s) \<longrightarrow> sequencers s' x = sequencers s x"
          using others lq by simp
        have 2: "\<forall>l' e nm. ActivateSequencer l' e nm \<in> set (FindSequencer l # cs1)
                        \<longrightarrow> next_epoch s' l' e"
          using cs1(2) by auto
        show ?thesis unfolding R using 1 2 cs1(1) by blast
      qed
    qed
  qed
qed

lemma maybeProcessQueue_reactivations:
  assumes "distinct (queue s)"
  shows "\<exists>cs. calls (maybeProcessQueue env s) = calls s @ cs \<and>
            (\<forall>l e nm. ActivateSequencer l e nm \<in> set cs \<longrightarrow>
               next_epoch (maybeProcessQueue env s) l e)"
proof -
  define s0 where "s0 = refreshBudget env (deactivateQueueProcessingTimer s)"
  have frame: "queue s0 = queue s" "calls s0 = calls s"
    by (auto simp: s0_def refreshBudget_def deactivateQueueProcessingTimer_def Let_def
             split: option.splits)
  from processQueue_reactivations [of s0 env False 0] assms frame
  show ?thesis by (simp add: maybeProcessQueue_def s0_def [symmetric])
qed

lemma queue_insert_distinct: "distinct q \<Longrightarrow> distinct (fst (queue_insert env x q))"
  by (simp add: queue_insert_def distinct_rehash)

lemma insertAll_distinct:
  "distinct q \<Longrightarrow> distinct (fst (insertAll env log_ids (q, n)))"
proof (induction log_ids arbitrary: q n)
  case Nil
  then show ?case by simp
next
  case (Cons x xs)
  obtain q' ins where qi: "queue_insert env x q = (q', ins)" by fastforce
  have "distinct q'" using queue_insert_distinct [OF Cons.prems, of env x] qi by simp
  from Cons.IH [OF this] show ?case by (simp add: qi)
qed

lemma schedule_reactivations:
  assumes "distinct (queue s)"
  shows "\<exists>cs. calls (schedule env log_ids s) = calls s @ cs \<and>
            (\<forall>l e nm. ActivateSequencer l e nm \<in> set cs \<longrightarrow>
               next_epoch (schedule env log_ids s) l e)"
proof -
  obtain q n where i: "insertAll env log_ids (queue s, 0) = (q, n)" by fastforce
  have "distinct q" using insertAll_distinct [OF assms, of env log_ids 0] i by simp
  then have "distinct (queue (bumpScheduledStat n (s\<lparr>queue := q\<rparr>)))"
    by (simp add: bumpScheduledStat_def)
  from maybeProcessQueue_reactivations [OF this, of env]
  show ?thesis by (simp add: schedule_def i bumpScheduledStat_def)
qed

lemma notifyCompletion_reactivations:
  assumes "distinct (queue s)"
  shows "\<exists>cs. calls (notifyCompletion env logid st s) = calls s @ cs \<and>
            (\<forall>l e nm. ActivateSequencer l e nm \<in> set cs \<longrightarrow>
               next_epoch (notifyCompletion env logid st s) l e)"
proof (cases "isMetaDataLog env logid \<or> sequencers s logid = None")
  case True
  then have "calls (notifyCompletion env logid st s) = calls s
             \<or> calls (notifyCompletion env logid st s) = calls s @ [FindSequencer logid]"
    by (auto simp: notifyCompletion_def call_def Let_def)
  then show ?thesis by auto
next
  case False
  then obtain seq where seq: "sequencers s logid = Some seq" by auto
  define s1 where "s1 = reclaimAndRequeue env logid seq (call (FindSequencer logid) s)"
  have n: "notifyCompletion env logid st s = maybeProcessQueue env s1"
    using False seq by (simp add: notifyCompletion_def call_def Let_def s1_def)
  have "queue s1 = fst (queue_insert env logid (queue s))"
    and c1: "calls s1 = calls s @ [FindSequencer logid]"
    by (auto simp: s1_def reclaimAndRequeue_def call_def releaseToken_def
          bumpCompletedStat_def bumpScheduledStat_def Let_def split: prod.splits)
  then have "distinct (queue s1)" using queue_insert_distinct [OF assms] by simp
  from maybeProcessQueue_reactivations [OF this, of env] obtain cs where
    "calls (maybeProcessQueue env s1) = calls s1 @ cs"
    "\<forall>l e nm. ActivateSequencer l e nm \<in> set cs \<longrightarrow> next_epoch (maybeProcessQueue env s1) l e"
    by blast
  then have "calls (notifyCompletion env logid st s) = calls s @ (FindSequencer logid # cs)"
    and "\<forall>l e nm. ActivateSequencer l e nm \<in> set (FindSequencer logid # cs) \<longrightarrow>
           next_epoch (notifyCompletion env logid st s) l e"
    using c1 by (auto simp: n)
  then show ?thesis by blast
qed


text \<open>
  Claim C6. Every call of \<^verbatim>\<open>activateSequencer\<close> that the reconciler makes is for the
  log it was called for and passes, as \<^verbatim>\<open>acceptable_activation_epoch\<close>, the current
  epoch of the sequencer plus one; the addition does not wrap around, since the current
  epoch is below \<^verbatim>\<open>EPOCH_MAX - 2\<close>. The same holds for every activation issued during a
  call of \<^verbatim>\<open>maybeProcessQueue\<close>, \<^verbatim>\<open>schedule\<close> or \<^verbatim>\<open>notifyCompletion\<close>, with the
  sequencer as the call leaves it, that is, as the decision procedure read it after
  \<^verbatim>\<open>noteConfigurationChanged\<close>. The pending set has no duplicates.
\<close>

theorem reactivation_uses_next_epoch:
  assumes "distinct (queue s)"
  shows "(\<exists>cs. calls (maybeProcessQueue env s) = calls s @ cs \<and>
            (\<forall>l e nm. ActivateSequencer l e nm \<in> set cs \<longrightarrow>
               next_epoch (maybeProcessQueue env s) l e)) \<and>
         (\<exists>cs. calls (schedule env log_ids s) = calls s @ cs \<and>
            (\<forall>l e nm. ActivateSequencer l e nm \<in> set cs \<longrightarrow>
               next_epoch (schedule env log_ids s) l e)) \<and>
         (\<exists>cs. calls (notifyCompletion env logid st s) = calls s @ cs \<and>
            (\<forall>l e nm. ActivateSequencer l e nm \<in> set cs \<longrightarrow>
               next_epoch (notifyCompletion env logid st s) l e)) \<and>
         (\<exists>cs. calls (snd (reprovisionOrReactivateIfNeeded env log_id seq t)) = calls t @ cs \<and>
            (\<forall>l e nm. ActivateSequencer l e nm \<in> set cs \<longrightarrow>
               l = log_id \<and>
               (\<exists>md. getCurrentMetaData seq = Some md \<and> e = h_epoch md + 1
                     \<and> unat e = unat (h_epoch md) + 1)))"
proof (intro conjI)
  show "\<exists>cs. calls (maybeProcessQueue env s) = calls s @ cs \<and>
            (\<forall>l e nm. ActivateSequencer l e nm \<in> set cs \<longrightarrow>
               next_epoch (maybeProcessQueue env s) l e)"
    using assms by (rule maybeProcessQueue_reactivations)
  show "\<exists>cs. calls (schedule env log_ids s) = calls s @ cs \<and>
            (\<forall>l e nm. ActivateSequencer l e nm \<in> set cs \<longrightarrow>
               next_epoch (schedule env log_ids s) l e)"
    using assms by (rule schedule_reactivations)
  show "\<exists>cs. calls (notifyCompletion env logid st s) = calls s @ cs \<and>
            (\<forall>l e nm. ActivateSequencer l e nm \<in> set cs \<longrightarrow>
               next_epoch (notifyCompletion env logid st s) l e)"
    using assms by (rule notifyCompletion_reactivations)
  obtain rv t' where r: "reprovisionOrReactivateIfNeeded env log_id seq t = (rv, t')"
    by fastforce
  from reprovision_calls [OF r]
  show "\<exists>cs. calls (snd (reprovisionOrReactivateIfNeeded env log_id seq t)) = calls t @ cs \<and>
            (\<forall>l e nm. ActivateSequencer l e nm \<in> set cs \<longrightarrow>
               l = log_id \<and>
               (\<exists>md. getCurrentMetaData seq = Some md \<and> e = h_epoch md + 1
                     \<and> unat e = unat (h_epoch md) + 1))"
    by (simp add: r)
qed

text \<open>The theorem at work: log 2, at epoch 5, is reactivated with epoch 6.\<close>

theorem reactivation_uses_next_epoch_witness:
  "distinct (queue (initial_state\<lparr>queue := [2]\<rparr>)) \<and>
   calls (maybeProcessQueue example_env (initial_state\<lparr>queue := [2]\<rparr>)) =
     [FindSequencer 2, NoteConfigurationChanged 2 True,
      UpdateMetaDataIfNeeded 2 (example_metadata\<lparr>h_epoch := 6\<rparr>),
      ActivateSequencer 2 6 None] \<and>
   h_epoch example_metadata = 5 \<and>
   next_epoch (maybeProcessQueue example_env (initial_state\<lparr>queue := [2]\<rparr>)) 2 6"
proof -
  have a: "distinct (queue (initial_state\<lparr>queue := [2]\<rparr>))" by simp
  have b: "calls (maybeProcessQueue example_env (initial_state\<lparr>queue := [2]\<rparr>)) =
     [FindSequencer 2, NoteConfigurationChanged 2 True,
      UpdateMetaDataIfNeeded 2 (example_metadata\<lparr>h_epoch := 6\<rparr>),
      ActivateSequencer 2 6 None]"
      "calls (initial_state\<lparr>queue := [2]\<rparr>) = []"
      "h_epoch example_metadata = 5"
    by (simp_all add: concrete_defs engine_defs processQueue.simps)
  from reactivation_uses_next_epoch [OF a, of example_env, THEN conjunct1] obtain cs where
    cs: "calls (maybeProcessQueue example_env (initial_state\<lparr>queue := [2]\<rparr>)) =
           calls (initial_state\<lparr>queue := [2]\<rparr>) @ cs"
      "\<forall>l e nm. ActivateSequencer l e nm \<in> set cs \<longrightarrow>
         next_epoch (maybeProcessQueue example_env (initial_state\<lparr>queue := [2]\<rparr>)) l e"
    by blast
  have "cs = [FindSequencer 2, NoteConfigurationChanged 2 True,
      UpdateMetaDataIfNeeded 2 (example_metadata\<lparr>h_epoch := 6\<rparr>),
      ActivateSequencer 2 6 None]"
    using cs(1) b(1,2) by simp
  then have "ActivateSequencer 2 6 None \<in> set cs"
    by simp
  with cs(2) have "next_epoch (maybeProcessQueue example_env (initial_state\<lparr>queue := [2]\<rparr>)) 2 6"
    by blast
  then show ?thesis using a b by simp
qed

end
